theory Spec2Isabelle
  imports Complex_Main
begin

section \<open>Errors and array access\<close>

text \<open>
  The exceptions the two source files can raise, as values. \<open>IndexError\<close> is what
  numpy and Python lists raise on an index out of range, \<open>MinOfEmpty\<close> the ValueError of
  \<open>numpy.min\<close> on an empty array, \<open>EmptySupport\<close> the ValueError "The support of the
  function space is empty.", \<open>GridMismatch\<close> the ValueError "domain and dual_to_range must
  be defined on the same grid.", \<open>ShapeMismatch\<close> the ValueError of an elementwise product
  of arrays of different lengths, \<open>IndexExceedsShape\<close> the ValueError of a sparse matrix
  built with an index outside its shape, \<open>NotImplemented\<close> the NotImplementedError.
\<close>

datatype error =
  IndexError | MinOfEmpty | EmptySupport | GridMismatch | ShapeMismatch | IndexExceedsShape
  | NotImplemented

definition ebind :: "error + 'a \<Rightarrow> ('a \<Rightarrow> error + 'b) \<Rightarrow> error + 'b" where
  "ebind m f = (case m of Inl e \<Rightarrow> Inl e | Inr x \<Rightarrow> f x)"

text \<open>A loop over a list whose body may raise: the first exception ends the loop.\<close>

fun efold :: "('s \<Rightarrow> 'a \<Rightarrow> error + 's) \<Rightarrow> 'a list \<Rightarrow> 's \<Rightarrow> error + 's" where
  "efold f [] s = Inr s"
| "efold f (x # xs) s = ebind (f s x) (\<lambda>s'. efold f xs s')"

text \<open>\<open>a[i]\<close>, \<open>a[i] = v\<close>, \<open>a[i, j]\<close> and \<open>a[i, j] = v\<close> on arrays indexed by
  non-negative integers.\<close>

definition lookup :: "'a list \<Rightarrow> nat \<Rightarrow> error + 'a" where
  "lookup xs i = (if i < length xs then Inr (xs ! i) else Inl IndexError)"

definition store :: "'a list \<Rightarrow> nat \<Rightarrow> 'a \<Rightarrow> error + 'a list" where
  "store xs i v = (if i < length xs then Inr (xs[i := v]) else Inl IndexError)"

definition lookup2 :: "'a list list \<Rightarrow> nat \<Rightarrow> nat \<Rightarrow> error + 'a" where
  "lookup2 a i j = ebind (lookup a i) (\<lambda>row. lookup row j)"

definition store2 :: "'a list list \<Rightarrow> nat \<Rightarrow> nat \<Rightarrow> 'a \<Rightarrow> error + 'a list list" where
  "store2 a i j v =
     ebind (lookup a i) (\<lambda>row. ebind (store row j v) (\<lambda>row'. store a i row'))"

text \<open>\<open>numpy.flatnonzero\<close> of a boolean array given by a test on the entries.\<close>

definition flatnonzero :: "('a \<Rightarrow> bool) \<Rightarrow> 'a list \<Rightarrow> nat list" where
  "flatnonzero p xs = filter (\<lambda>i. p (xs ! i)) [0..<length xs]"

text \<open>The value an \<open>int32\<close> takes when it is written into a \<open>uint32\<close> array.\<close>

definition to_uint32 :: "int \<Rightarrow> nat" where
  "to_uint32 d = nat (d mod 2 ^ 32)"

section \<open>The grid and the DOF assignment of the RWG space\<close>

text \<open>
  The grid is external to the two files; the constructor reads four of its attributes.
  \<open>element_edges\<close> is the array of shape (3, number_of_elements) that the source indexes
  as \<open>element_edges[local_index, element_index]\<close>, \<open>edge_neighbors\<close> the list of the
  adjacent elements of every edge. \<open>grid_id\<close> stands for the identity of the grid object,
  which is what the comparison of two grids looks at.
\<close>

record grid =
  grid_id :: nat
  number_of_elements :: nat
  number_of_edges :: nat
  element_edges :: "nat list list"
  edge_neighbors :: "nat list list"

text \<open>
  The variables of the loop of \<open>Rwg0FunctionSpace.__init__\<close>. The multipliers are the
  floats -1, 0 and 1, kept as integers; identifiers and the counter are Python integers
  (the \<open>int32\<close> arrays \<open>edge_dofs\<close> and \<open>dofmap\<close> hold them exactly while the counter is
  below 2^31).
\<close>

record dof_state =
  local2global_map :: "nat list list"
  local_multipliers :: "int list list"
  edge_dofs :: "int list"
  delete_from_support :: "nat list"
  count :: int

text \<open>Lines 50 to 60: the neighbour across the edge that is in the support, or -1.\<close>

definition find_other :: "bool list \<Rightarrow> nat \<Rightarrow> nat list \<Rightarrow> error + int" where
  "find_other support element_index nbrs =
     (if length nbrs = 1 then Inr (- 1)
      else ebind (lookup nbrs 0) (\<lambda>n0.
           ebind (if element_index = n0 then lookup nbrs 1 else Inr n0) (\<lambda>other.
           ebind (lookup support other) (\<lambda>s.
           Inr (if \<not> s then - 1 else int other)))))"

text \<open>Lines 47 to 78: the body of the loop over the three local indices.\<close>

definition slot_step ::
  "grid \<Rightarrow> bool list \<Rightarrow> bool \<Rightarrow> nat \<Rightarrow> dof_state \<times> int list \<Rightarrow> nat
    \<Rightarrow> error + (dof_state \<times> int list)" where
  "slot_step g support include_boundary_dofs element_index sd local_index =
     (case sd of (st, dofmap) \<Rightarrow>
      ebind (lookup2 (element_edges g) local_index element_index) (\<lambda>edge_index.
      ebind (lookup (edge_neighbors g) edge_index) (\<lambda>nbrs.
      ebind (find_other support element_index nbrs) (\<lambda>other.
      if other = - 1 then
        (if \<not> include_boundary_dofs then
           ebind (store2 (local_multipliers st) element_index local_index 0) (\<lambda>m.
           Inr (st\<lparr>local_multipliers := m\<rparr>, dofmap))
         else
           ebind (store2 (local_multipliers st) element_index local_index 1) (\<lambda>m.
           ebind (store dofmap local_index (count st)) (\<lambda>d.
           Inr (st\<lparr>local_multipliers := m, count := count st + 1\<rparr>, d))))
      else
        ebind (store2 (local_multipliers st) element_index local_index
                 (if element_index = min_list nbrs then 1 else - 1)) (\<lambda>m.
        ebind (lookup (edge_dofs st) edge_index) (\<lambda>ed.
        ebind (if ed = - 1 then store (edge_dofs st) edge_index (count st)
               else Inr (edge_dofs st)) (\<lambda>eds.
        ebind (lookup eds edge_index) (\<lambda>ed'.
        ebind (store dofmap local_index ed') (\<lambda>d.
        Inr (st\<lparr>local_multipliers := m, edge_dofs := eds,
                 count := (if ed = - 1 then count st + 1 else count st)\<rparr>, d))))))))))"

text \<open>Lines 82 to 96: after the three slots, drop the element or fill its zero slots.\<close>

definition finish_element :: "nat \<Rightarrow> dof_state \<times> int list \<Rightarrow> error + dof_state" where
  "finish_element element_index sd =
     (case sd of (st, dofmap) \<Rightarrow>
      if \<forall>d \<in> set dofmap. d = - 1 then
        ebind (store (local_multipliers st) element_index [0, 0, 0]) (\<lambda>m.
        ebind (store (local2global_map st) element_index [0, 0, 0]) (\<lambda>l.
        Inr (st\<lparr>delete_from_support := delete_from_support st @ [element_index],
                 local_multipliers := m, local2global_map := l\<rparr>)))
      else
        ebind (lookup (local_multipliers st) element_index) (\<lambda>row.
        let arg_zeros = flatnonzero (\<lambda>x. x = 0) row;
            nonzeros = flatnonzero (\<lambda>x. x \<noteq> 0) row
        in if nonzeros = [] then Inl MinOfEmpty
           else
             let first_nonzero = min_list nonzeros in
             ebind (lookup dofmap first_nonzero) (\<lambda>v.
             ebind (efold (\<lambda>d i. store d i v) arg_zeros dofmap) (\<lambda>dofmap'.
             ebind (store (local2global_map st) element_index (map to_uint32 dofmap')) (\<lambda>l.
             Inr (st\<lparr>local2global_map := l\<rparr>))))))"

definition element_step ::
  "grid \<Rightarrow> bool list \<Rightarrow> bool \<Rightarrow> dof_state \<Rightarrow> nat \<Rightarrow> error + dof_state" where
  "element_step g support include_boundary_dofs st element_index =
     ebind (efold (slot_step g support include_boundary_dofs element_index) [0, 1, 2]
              (st, [- 1, - 1, - 1]))
       (finish_element element_index)"

definition initial_state :: "grid \<Rightarrow> dof_state" where
  "initial_state g =
     \<lparr>local2global_map = replicate (number_of_elements g) [0, 0, 0],
      local_multipliers = replicate (number_of_elements g) [0, 0, 0],
      edge_dofs = replicate (number_of_edges g) (- 1),
      delete_from_support = [],
      count = 0\<rparr>"

text \<open>Lines 34 to 98: the loop over the elements of the support.\<close>

definition assign_dofs :: "grid \<Rightarrow> bool list \<Rightarrow> bool \<Rightarrow> error + dof_state" where
  "assign_dofs g support include_boundary_dofs =
     efold (element_step g support include_boundary_dofs)
       (flatnonzero (\<lambda>b. b) support) (initial_state g)"

text \<open>
  What the constructor hands to \<open>_SpaceData\<close> and to the localised space, which is
  given the literal 3 as its number of shape functions.
\<close>

record space_data =
  sp_grid :: grid
  global_dof_count :: int
  local2global :: "nat list list"
  multipliers :: "int list list"
  sp_support :: "bool list"
  number_of_shape_functions :: nat

text \<open>Lines 100 to 106: shrink the support, fail when nothing is left.\<close>

definition shrink_support :: "bool list \<Rightarrow> nat list \<Rightarrow> error + bool list" where
  "shrink_support support dels = efold (\<lambda>s index. store s index False) dels support"

definition support_size :: "bool list \<Rightarrow> nat" where
  "support_size support = length (filter (\<lambda>b. b) support)"

definition rwg0_init :: "grid \<Rightarrow> bool list \<Rightarrow> bool \<Rightarrow> error + space_data" where
  "rwg0_init g support include_boundary_dofs =
     ebind (assign_dofs g support include_boundary_dofs) (\<lambda>st.
     ebind (shrink_support support (delete_from_support st)) (\<lambda>support'.
     if support_size support' = 0 then Inl EmptySupport
     else Inr \<lparr>sp_grid = g, global_dof_count = count st,
               local2global = local2global_map st,
               multipliers = local_multipliers st,
               sp_support = support', number_of_shape_functions = 3\<rparr>))"

section \<open>Invariants of the DOF assignment\<close>

text \<open>
  The shapes and ranges that the loop keeps: arrays of shape (number_of_elements, 3), one
  entry of \<open>edge_dofs\<close> per edge, and every identifier handed out so far below the counter.
\<close>

definition state_ok :: "grid \<Rightarrow> dof_state \<Rightarrow> bool" where
  "state_ok g st \<longleftrightarrow>
     length (local_multipliers st) = number_of_elements g
     \<and> length (local2global_map st) = number_of_elements g
     \<and> (\<forall>row \<in> set (local_multipliers st). length row = 3)
     \<and> (\<forall>row \<in> set (local2global_map st). length row = 3)
     \<and> length (edge_dofs st) = number_of_edges g
     \<and> 0 \<le> count st
     \<and> (\<forall>d \<in> set (edge_dofs st). d = - 1 \<or> (0 \<le> d \<and> d < count st))"

definition dofmap_ok :: "dof_state \<Rightarrow> int list \<Rightarrow> bool" where
  "dofmap_ok st dofmap \<longleftrightarrow>
     length dofmap = 3 \<and> (\<forall>d \<in> set dofmap. d = - 1 \<or> (0 \<le> d \<and> d < count st))"

text \<open>
  The edge of a local slot, the neighbours of that edge, and the neighbour in the support
  that the loop finds across it.
\<close>

definition slot_edge :: "grid \<Rightarrow> nat \<Rightarrow> nat \<Rightarrow> nat" where
  "slot_edge g el l = element_edges g ! l ! el"

definition slot_neighbors :: "grid \<Rightarrow> nat \<Rightarrow> nat \<Rightarrow> nat list" where
  "slot_neighbors g el l = edge_neighbors g ! slot_edge g el l"

definition slot_other :: "grid \<Rightarrow> bool list \<Rightarrow> nat \<Rightarrow> nat \<Rightarrow> error + int" where
  "slot_other g support el l = find_other support el (slot_neighbors g el l)"

text \<open>
  What the loop body leaves for the slot \<open>l\<close> of the element \<open>el\<close>: the multiplier \<open>m\<close>
  and the identifier \<open>d\<close> (-1 for none), given the table \<open>eds\<close> of the edges.
\<close>

definition slot_rec ::
  "grid \<Rightarrow> bool list \<Rightarrow> bool \<Rightarrow> nat \<Rightarrow> nat \<Rightarrow> int \<Rightarrow> int \<Rightarrow> int list \<Rightarrow> bool" where
  "slot_rec g support ibd el l m d eds \<longleftrightarrow>
     l < length (element_edges g) \<and> el < length (element_edges g ! l)
     \<and> slot_edge g el l < length (edge_neighbors g)
     \<and> (\<exists>other. slot_other g support el l = Inr other
          \<and> (if other = - 1 then (if ibd then m = 1 \<and> 0 \<le> d else m = 0 \<and> d = - 1)
              else m = (if el = min_list (slot_neighbors g el l) then 1 else - 1)
                   \<and> slot_edge g el l < length eds \<and> eds ! slot_edge g el l = d \<and> 0 \<le> d))"

text \<open>The same for a finished element, whose identifiers are in \<open>local2global_map\<close>.\<close>

definition slot_done :: "grid \<Rightarrow> bool list \<Rightarrow> bool \<Rightarrow> dof_state \<Rightarrow> nat \<Rightarrow> nat \<Rightarrow> bool" where
  "slot_done g support ibd st el l \<longleftrightarrow>
     (\<exists>d. slot_rec g support ibd el l (local_multipliers st ! el ! l) d (edge_dofs st)
          \<and> (local_multipliers st ! el ! l \<noteq> 0 \<longrightarrow>
               local2global_map st ! el ! l = to_uint32 d \<and> d < count st))"

definition row_fill :: "dof_state \<Rightarrow> nat \<Rightarrow> bool" where
  "row_fill st el \<longleftrightarrow>
     (if \<forall>l<3. local_multipliers st ! el ! l = 0
      then el \<in> set (delete_from_support st) \<and> local2global_map st ! el = [0, 0, 0]
      else el \<notin> set (delete_from_support st)
           \<and> (\<forall>l<3. local_multipliers st ! el ! l = 0 \<longrightarrow>
                 local2global_map st ! el ! l =
                 local2global_map st ! el !
                   min_list (flatnonzero (\<lambda>x. x \<noteq> 0) (local_multipliers st ! el))))"

definition row_ok :: "grid \<Rightarrow> bool list \<Rightarrow> bool \<Rightarrow> dof_state \<Rightarrow> nat \<Rightarrow> bool" where
  "row_ok g support ibd st el \<longleftrightarrow>
     el < number_of_elements g \<and> (\<forall>l<3. slot_done g support ibd st el l) \<and> row_fill st el"

text \<open>What a step for the element \<open>el\<close> leaves alone.\<close>

definition frame :: "nat \<Rightarrow> dof_state \<Rightarrow> dof_state \<Rightarrow> bool" where
  "frame el s s' \<longleftrightarrow>
     (\<forall>i. i \<noteq> el \<longrightarrow> local_multipliers s' ! i = local_multipliers s ! i
                    \<and> local2global_map s' ! i = local2global_map s ! i)
     \<and> length (edge_dofs s') = length (edge_dofs s)
     \<and> (\<forall>e<length (edge_dofs s). edge_dofs s ! e \<noteq> - 1 \<longrightarrow> edge_dofs s' ! e = edge_dofs s ! e)
     \<and> count s \<le> count s'
     \<and> (\<forall>x. x \<noteq> el \<longrightarrow> (x \<in> set (delete_from_support s') \<longleftrightarrow> x \<in> set (delete_from_support s)))"

text \<open>The invariant of the loop over the elements, \<open>done\<close> being those already visited.\<close>

definition outer_inv ::
  "grid \<Rightarrow> bool list \<Rightarrow> bool \<Rightarrow> nat list \<Rightarrow> dof_state \<Rightarrow> bool" where
  "outer_inv g support ibd done st \<longleftrightarrow>
     state_ok g st
     \<and> (\<forall>el \<in> set done. row_ok g support ibd st el)
     \<and> (\<forall>el<number_of_elements g. el \<notin> set done \<longrightarrow>
           local_multipliers st ! el = [0, 0, 0] \<and> local2global_map st ! el = [0, 0, 0])
     \<and> set (delete_from_support st) \<subseteq> set done"

text \<open>The invariant of the loop over the slots \<open>ks\<close> already visited of the element \<open>el\<close>.\<close>

definition inner_inv ::
  "grid \<Rightarrow> bool list \<Rightarrow> bool \<Rightarrow> nat list \<Rightarrow> nat \<Rightarrow> nat list \<Rightarrow> dof_state \<times> int list \<Rightarrow> bool"
  where
  "inner_inv g support ibd done el ks sd \<longleftrightarrow>
     (case sd of (s, dm) \<Rightarrow>
        state_ok g s \<and> dofmap_ok s dm
        \<and> (\<forall>el' \<in> set done. row_ok g support ibd s el')
        \<and> (\<forall>el'<number_of_elements g. el' \<notin> set done \<longrightarrow> el' \<noteq> el \<longrightarrow>
              local_multipliers s ! el' = [0, 0, 0] \<and> local2global_map s ! el' = [0, 0, 0])
        \<and> set (delete_from_support s) \<subseteq> set done
        \<and> el \<notin> set done
        \<and> (\<forall>l<3. l \<notin> set ks \<longrightarrow> dm ! l = - 1)
        \<and> (\<forall>l \<in> set ks. l < 3 \<and>
              slot_rec g support ibd el l (local_multipliers s ! el ! l) (dm ! l) (edge_dofs s)))"

text \<open>
  The grid invariant: three rows of edges, one column per element, edges and neighbours in
  range, and one or two neighbours on every edge. A closed grid has two on every edge,
  and each of the two holds the edge in one of its slots.
\<close>

definition grid_wf :: "grid \<Rightarrow> bool" where
  "grid_wf g \<longleftrightarrow>
     length (element_edges g) = 3
     \<and> (\<forall>row \<in> set (element_edges g). length row = number_of_elements g)
     \<and> (\<forall>l<3. \<forall>el<number_of_elements g. element_edges g ! l ! el < number_of_edges g)
     \<and> length (edge_neighbors g) = number_of_edges g
     \<and> (\<forall>nbrs \<in> set (edge_neighbors g).
           (length nbrs = 1 \<or> length nbrs = 2) \<and> (\<forall>x \<in> set nbrs. x < number_of_elements g))"

definition closed_grid :: "grid \<Rightarrow> bool" where
  "closed_grid g \<longleftrightarrow>
     grid_wf g
     \<and> (\<forall>e<number_of_edges g. length (edge_neighbors g ! e) = 2
           \<and> (\<forall>x \<in> set (edge_neighbors g ! e). \<exists>l<3. element_edges g ! l ! x = e))"

text \<open>
  The table of the edges never gives one identifier to two edges, and without boundary
  DOFs the counter is the number of edges that have an identifier.
\<close>

definition edges_inv :: "bool \<Rightarrow> dof_state \<Rightarrow> bool" where
  "edges_inv ibd st \<longleftrightarrow>
     (\<forall>e<length (edge_dofs st). \<forall>e'<length (edge_dofs st).
        edge_dofs st ! e = edge_dofs st ! e' \<longrightarrow> edge_dofs st ! e \<noteq> - 1 \<longrightarrow> e = e')
     \<and> (\<not> ibd \<longrightarrow>
          count st = int (card {e. e < length (edge_dofs st) \<and> edge_dofs st ! e \<noteq> - 1}))"

text \<open>
  The slots that carry a DOF: those of the visited elements with a nonzero multiplier. A
  boundary slot is one across whose edge the loop finds no neighbour in the support.
\<close>

definition used_slot :: "dof_state \<Rightarrow> nat list \<Rightarrow> nat \<Rightarrow> nat \<Rightarrow> bool" where
  "used_slot st dn el l \<longleftrightarrow> el \<in> set dn \<and> l < 3 \<and> local_multipliers st ! el ! l \<noteq> 0"

definition boundary_slot :: "grid \<Rightarrow> bool list \<Rightarrow> nat \<Rightarrow> nat \<Rightarrow> bool" where
  "boundary_slot g support el l \<longleftrightarrow> slot_other g support el l = Inr (- 1)"

text \<open>
  The identifiers in use: every identifier below the counter is held by a slot that
  carries a DOF, and (while identifiers fit \<open>uint32\<close>) the identifier of a boundary slot is
  that of no edge and of no other boundary slot.
\<close>

definition ids_inv :: "grid \<Rightarrow> bool list \<Rightarrow> nat list \<Rightarrow> dof_state \<Rightarrow> bool" where
  "ids_inv g support dn st \<longleftrightarrow>
     (\<forall>d. 0 \<le> d \<and> d < count st \<longrightarrow>
        (\<exists>el l. used_slot st dn el l \<and> local2global_map st ! el ! l = to_uint32 d))
     \<and> (count st \<le> 2 ^ 32 \<longrightarrow>
          (\<forall>el l e. used_slot st dn el l \<and> boundary_slot g support el l
                \<and> e < length (edge_dofs st)
              \<longrightarrow> edge_dofs st ! e \<noteq> int (local2global_map st ! el ! l))
        \<and> (\<forall>el l el' l'. used_slot st dn el l \<and> used_slot st dn el' l'
                \<and> boundary_slot g support el l \<and> boundary_slot g support el' l'
                \<and> local2global_map st ! el ! l = local2global_map st ! el' ! l'
              \<longrightarrow> el = el' \<and> l = l'))"

definition ids_inner ::
  "grid \<Rightarrow> bool list \<Rightarrow> nat list \<Rightarrow> nat \<Rightarrow> nat list \<Rightarrow> dof_state \<times> int list \<Rightarrow> bool" where
  "ids_inner g support dn el ks sd \<longleftrightarrow>
     (case sd of (s, dm) \<Rightarrow>
        (\<forall>d. 0 \<le> d \<and> d < count s \<longrightarrow>
           (\<exists>el' l'. used_slot s dn el' l' \<and> local2global_map s ! el' ! l' = to_uint32 d)
           \<or> (\<exists>l \<in> set ks. dm ! l = d))
        \<and> (count s \<le> 2 ^ 32 \<longrightarrow>
             (\<forall>el' l' e. used_slot s dn el' l' \<and> boundary_slot g support el' l'
                   \<and> e < length (edge_dofs s)
                 \<longrightarrow> edge_dofs s ! e \<noteq> int (local2global_map s ! el' ! l'))
           \<and> (\<forall>el1 l1 el2 l2. used_slot s dn el1 l1 \<and> used_slot s dn el2 l2
                   \<and> boundary_slot g support el1 l1 \<and> boundary_slot g support el2 l2
                   \<and> local2global_map s ! el1 ! l1 = local2global_map s ! el2 ! l2
                 \<longrightarrow> el1 = el2 \<and> l1 = l2)
           \<and> (\<forall>l \<in> set ks. \<forall>e<length (edge_dofs s).
                 boundary_slot g support el l \<longrightarrow> dm ! l \<noteq> - 1 \<longrightarrow> edge_dofs s ! e \<noteq> dm ! l)
           \<and> (\<forall>l \<in> set ks. \<forall>el' l'. boundary_slot g support el l \<and> dm ! l \<noteq> - 1
                   \<and> used_slot s dn el' l' \<and> boundary_slot g support el' l'
                 \<longrightarrow> int (local2global_map s ! el' ! l') \<noteq> dm ! l)
           \<and> (\<forall>l \<in> set ks. \<forall>l' \<in> set ks. boundary_slot g support el l
                   \<and> boundary_slot g support el l' \<and> dm ! l = dm ! l' \<and> dm ! l \<noteq> - 1
                 \<longrightarrow> l = l')))"

text \<open>
  The slots of the returned space that carry a DOF: those of the elements of the final
  support with a nonzero multiplier.
\<close>

definition dof_slot :: "space_data \<Rightarrow> nat \<Rightarrow> nat \<Rightarrow> bool" where
  "dof_slot sp el l \<longleftrightarrow>
     el < length (sp_support sp) \<and> sp_support sp ! el \<and> l < 3 \<and> multipliers sp ! el ! l \<noteq> 0"

text \<open>Lines 146 to 149 and 162 to 164: both entry points of the surface gradient.\<close>

definition numba_surface_gradient :: "space_data \<Rightarrow> error + 'f" where
  "numba_surface_gradient self = Inl NotImplemented"

definition surface_gradient ::
  "space_data \<Rightarrow> nat \<Rightarrow> real list list \<Rightarrow> error + real list list list" where
  "surface_gradient self element local_coordinates = Inl NotImplemented"

section \<open>The sparse assembler\<close>

text \<open>
  The device is external. What the assembler does to it is kept as the list of the calls
  it makes, in order; what the kernels leave in the result buffer is a parameter
  \<open>device_kernel\<close>, a function of the buffer of active elements and of the position in the
  result buffer, whose size is fixed when it is allocated.
  Values are floats in the source and real numbers here.
\<close>

datatype device_event =
  BufferFromArray | PushToDevice | AllocBuffer nat | BuildKernel | RunChunkedKernel
  | GetHostCopy

text \<open>The product of two boolean numpy arrays, with numpy's broadcasting of length 1.\<close>

definition mult_masks :: "bool list \<Rightarrow> bool list \<Rightarrow> error + bool list" where
  "mult_masks a b =
     (if length a = length b then Inr (map2 (\<and>) a b)
      else if length a = 1 then Inr (map (\<lambda>y. hd a \<and> y) b)
      else if length b = 1 then Inr (map (\<lambda>x. x \<and> hd b) a)
      else Inl ShapeMismatch)"

text \<open>\<open>numpy.repeat\<close> and \<open>numpy.tile\<close> on flat arrays, and \<open>a[idx]\<close> for an index array.\<close>

definition np_repeat :: "'a list \<Rightarrow> nat \<Rightarrow> 'a list" where
  "np_repeat xs k = concat (map (replicate k) xs)"

definition np_tile :: "'a list \<Rightarrow> nat \<Rightarrow> 'a list" where
  "np_tile xs k = concat (replicate k xs)"

definition gather :: "'a list \<Rightarrow> nat list \<Rightarrow> error + 'a list" where
  "gather xs idx =
     (if \<forall>i \<in> set idx. i < length xs then Inr (map ((!) xs) idx) else Inl IndexError)"

text \<open>
  Lines 107 and 161: \<open>flatnonzero(domain.support * dual_to_range.support)\<close>, cast to
  \<open>uint32\<close>.
\<close>

definition active_elements :: "space_data \<Rightarrow> space_data \<Rightarrow> error + nat list" where
  "active_elements domain dual_to_range =
     ebind (mult_masks (sp_support domain) (sp_support dual_to_range)) (\<lambda>active.
     Inr (map (\<lambda>e. e mod 2 ^ 32) (flatnonzero (\<lambda>b. b) active)))"

text \<open>Lines 142 to 203: the buffers; the last one allocated here is the result buffer.\<close>

definition prepare_buffers ::
  "space_data \<Rightarrow> space_data \<Rightarrow> device_event list
    \<Rightarrow> (error + nat list \<times> nat) \<times> device_event list"
  where
  "prepare_buffers domain dual_to_range trace =
     (let trace1 = trace @ [BufferFromArray, BufferFromArray, PushToDevice] in
      case active_elements domain dual_to_range of
        Inl e \<Rightarrow> (Inl e, trace1)
      | Inr elements \<Rightarrow>
          let number_of_elements = length elements;
              result_buffer_size = number_of_elements *
                (number_of_shape_functions domain * number_of_shape_functions dual_to_range)
          in (Inr (elements, result_buffer_size),
              trace1 @ [BufferFromArray, AllocBuffer result_buffer_size,
                        BufferFromArray, BufferFromArray]))"

text \<open>
  Lines 55 to 139. The product \<open>elements * number_of_test_shape_functions\<close> is a product
  of a \<open>uint32\<close> array with a Python integer and stays \<open>uint32\<close>.
\<close>

definition assemble_sparse ::
  "space_data \<Rightarrow> space_data \<Rightarrow> (nat list \<Rightarrow> nat \<Rightarrow> real) \<Rightarrow> device_event list
    \<Rightarrow> (error + nat list \<times> nat list \<times> real list) \<times> device_event list" where
  "assemble_sparse domain dual_to_range device_kernel trace =
     (if sp_grid domain \<noteq> sp_grid dual_to_range then (Inl GridMismatch, trace)
      else
        case prepare_buffers domain dual_to_range trace of
          (Inl e, trace1) \<Rightarrow> (Inl e, trace1)
        | (Inr (buffer_elements, result_buffer_size), trace1) \<Rightarrow>
            let number_of_test_shape_functions = number_of_shape_functions dual_to_range;
                number_of_trial_shape_functions = number_of_shape_functions domain;
                trace2 = trace1 @ [BuildKernel, BuildKernel]
            in
            (case active_elements domain dual_to_range of
              Inl e \<Rightarrow> (Inl e, trace2)
            | Inr elements \<Rightarrow>
                let number_of_elements = length elements;
                    trace3 = trace2 @ [RunChunkedKernel, GetHostCopy];
                    result = map (device_kernel buffer_elements) [0..<result_buffer_size];
                    irange = [0..<number_of_test_shape_functions];
                    jrange = [0..<number_of_trial_shape_functions];
                    i_ind = map2 (+)
                      (np_tile (np_repeat irange number_of_trial_shape_functions)
                         number_of_elements)
                      (np_repeat
                         (map (\<lambda>e. (e * number_of_test_shape_functions) mod 2 ^ 32) elements)
                         (number_of_test_shape_functions * number_of_trial_shape_functions));
                    j_ind = map2 (+)
                      (np_tile (np_tile jrange number_of_test_shape_functions)
                         number_of_elements)
                      (np_repeat
                         (map (\<lambda>e. (e * number_of_trial_shape_functions) mod 2 ^ 32) elements)
                         (number_of_test_shape_functions * number_of_trial_shape_functions))
                in (Inr (i_ind, j_ind, result), trace3)))"

text \<open>
  The matrix that scipy builds from the triplets: the constructor of \<open>coo_matrix\<close> rejects
  an index outside the shape, and the conversion to compressed rows sums the values of the
  triplets that share a row and a column.
\<close>

record sparse_matrix =
  shape :: "int \<times> int"
  triplets :: "(nat \<times> nat \<times> real) list"

definition coo_matrix ::
  "real list \<Rightarrow> nat list \<Rightarrow> nat list \<Rightarrow> int \<times> int \<Rightarrow> error + sparse_matrix" where
  "coo_matrix data rows cols shp =
     (if (\<exists>r \<in> set rows. fst shp \<le> int r) \<or> (\<exists>c \<in> set cols. snd shp \<le> int c)
      then Inl IndexExceedsShape
      else Inr \<lparr>shape = shp, triplets = zip rows (zip cols data)\<rparr>)"

definition entry :: "sparse_matrix \<Rightarrow> nat \<Rightarrow> nat \<Rightarrow> real" where
  "entry M r c =
     sum_list (map (\<lambda>(r', c', v). v) (filter (\<lambda>(r', c', v). r' = r \<and> c' = c) (triplets M)))"

text \<open>The elementwise product of numpy arrays of one length.\<close>

definition np_mult :: "real list \<Rightarrow> real list \<Rightarrow> error + real list" where
  "np_mult a b =
     (if length a = length b then Inr (map2 (*) a b)
      else if length a = 1 then Inr (map (\<lambda>y. hd a * y) b)
      else if length b = 1 then Inr (map (\<lambda>x. x * hd b) a)
      else Inl ShapeMismatch)"

text \<open>
  Lines 16 to 52. The promotion to double precision changes the format of the values,
  not the values.
\<close>

definition assemble ::
  "space_data \<Rightarrow> space_data \<Rightarrow> (nat list \<Rightarrow> nat \<Rightarrow> real) \<Rightarrow> device_event list
    \<Rightarrow> (error + sparse_matrix) \<times> device_event list" where
  "assemble domain dual_to_range device_kernel trace =
     (let trial_local2global = concat (local2global domain);
          test_local2global = concat (local2global dual_to_range);
          trial_multipliers = concat (multipliers domain);
          test_multipliers = concat (multipliers dual_to_range)
      in case assemble_sparse domain dual_to_range device_kernel trace of
           (Inl e, trace') \<Rightarrow> (Inl e, trace')
         | (Inr (rows, cols, data), trace') \<Rightarrow>
             (ebind (gather test_local2global rows) (\<lambda>new_rows.
              ebind (gather trial_local2global cols) (\<lambda>new_cols.
              ebind (gather trial_multipliers cols) (\<lambda>tm.
              ebind (np_mult data (map of_int tm)) (\<lambda>d1.
              ebind (gather test_multipliers rows) (\<lambda>sm.
              ebind (np_mult d1 (map of_int sm)) (\<lambda>new_data.
              coo_matrix new_data new_rows new_cols
                (global_dof_count dual_to_range, global_dof_count domain))))))),
              trace'))"

text \<open>
  The shape of the arrays of a space: one row per element of the grid, one column per
  shape function, and a support mask over the elements.
\<close>

definition space_shape_ok :: "space_data \<Rightarrow> bool" where
  "space_shape_ok sp \<longleftrightarrow>
     length (local2global sp) = number_of_elements (sp_grid sp)
     \<and> length (multipliers sp) = number_of_elements (sp_grid sp)
     \<and> length (sp_support sp) = number_of_elements (sp_grid sp)
     \<and> (\<forall>row \<in> set (local2global sp). length row = number_of_shape_functions sp)
     \<and> (\<forall>row \<in> set (multipliers sp). length row = number_of_shape_functions sp)"

text \<open>
  The sizes for which the \<open>uint32\<close> arithmetic of the assembler on the elements of a
  space is exact.
\<close>

definition uint32_exact :: "space_data \<Rightarrow> bool" where
  "uint32_exact sp \<longleftrightarrow>
     number_of_elements (sp_grid sp) \<le> 2 ^ 32
     \<and> number_of_elements (sp_grid sp) * number_of_shape_functions sp \<le> 2 ^ 32"

section \<open>Example inputs\<close>

text \<open>
  A single triangle; two triangles that share the edge 2; the surface of a tetrahedron,
  four triangles and six edges, every edge between two triangles.
\<close>

definition single_triangle :: grid where
  "single_triangle =
     \<lparr>grid_id = 0, number_of_elements = 1, number_of_edges = 3,
      element_edges = [[0], [1], [2]], edge_neighbors = [[0], [0], [0]]\<rparr>"

definition two_triangles :: grid where
  "two_triangles =
     \<lparr>grid_id = 1, number_of_elements = 2, number_of_edges = 5,
      element_edges = [[0, 2], [1, 3], [2, 4]],
      edge_neighbors = [[0], [0], [0, 1], [1], [1]]\<rparr>"

definition tetrahedron :: grid where
  "tetrahedron =
     \<lparr>grid_id = 2, number_of_elements = 4, number_of_edges = 6,
      element_edges = [[0, 0, 1, 2], [1, 3, 3, 4], [2, 4, 5, 5]],
      edge_neighbors = [[0, 1], [0, 2], [0, 3], [1, 2], [1, 3], [2, 3]]\<rparr>"

text \<open>A space on the two triangles whose support is the second triangle alone.\<close>

definition second_triangle_space :: space_data where
  "second_triangle_space =
     \<lparr>sp_grid = two_triangles, global_dof_count = 3,
      local2global = [[0, 0, 0], [0, 1, 2]], multipliers = [[0, 0, 0], [1, 1, 1]],
      sp_support = [False, True], number_of_shape_functions = 3\<rparr>"

text \<open>The space of both triangles without boundary DOFs, and one on another grid.\<close>

definition shared_edge_space :: space_data where
  "shared_edge_space =
     \<lparr>sp_grid = two_triangles, global_dof_count = 1,
      local2global = [[0, 0, 0], [0, 0, 0]], multipliers = [[0, 0, 1], [- 1, 0, 0]],
      sp_support = [True, True], number_of_shape_functions = 3\<rparr>"

definition triangle_space :: space_data where
  "triangle_space =
     \<lparr>sp_grid = single_triangle, global_dof_count = 3,
      local2global = [[0, 1, 2]], multipliers = [[1, 1, 1]],
      sp_support = [True], number_of_shape_functions = 3\<rparr>"

text \<open>The space of both triangles with boundary DOFs: four boundary edges, one common.\<close>

definition boundary_dof_space :: space_data where
  "boundary_dof_space =
     \<lparr>sp_grid = two_triangles, global_dof_count = 5,
      local2global = [[0, 1, 2], [2, 3, 4]], multipliers = [[1, 1, 1], [- 1, 1, 1]],
      sp_support = [True, True], number_of_shape_functions = 3\<rparr>"

text \<open>A result buffer that holds its own positions, shifted by one.\<close>

definition position_kernel :: "nat list \<Rightarrow> nat \<Rightarrow> real" where
  "position_kernel elements k = real (k + 1)"

section \<open>Properties of the error monad and of array access\<close>

lemma ebind_Inr_iff: "ebind m f = Inr y \<longleftrightarrow> (\<exists>x. m = Inr x \<and> f x = Inr y)"
  by (cases m) (simp_all add: ebind_def)

lemma ebind_Inr [simp]: "ebind (Inr x) f = f x"
  by (simp add: ebind_def)

lemma ebind_Inl [simp]: "ebind (Inl e) f = Inl e"
  by (simp add: ebind_def)

lemma ebind_Inl_iff:
  "ebind m f = Inl e \<longleftrightarrow> m = Inl e \<or> (\<exists>x. m = Inr x \<and> f x = Inl e)"
  by (cases m) simp_all

lemma lookup_Inr_iff: "lookup xs i = Inr v \<longleftrightarrow> i < length xs \<and> v = xs ! i"
  by (auto simp: lookup_def)

lemma store_Inr_iff: "store xs i v = Inr ys \<longleftrightarrow> i < length xs \<and> ys = xs[i := v]"
  by (auto simp: store_def)

lemma lookup2_Inr_iff:
  "lookup2 a i j = Inr v \<longleftrightarrow> i < length a \<and> j < length (a ! i) \<and> v = a ! i ! j"
  by (auto simp: lookup2_def ebind_Inr_iff lookup_Inr_iff)

lemma store2_Inr_iff:
  "store2 a i j v = Inr b \<longleftrightarrow> i < length a \<and> j < length (a ! i) \<and> b = a[i := (a ! i)[j := v]]"
  by (auto simp: store2_def ebind_Inr_iff lookup_Inr_iff store_Inr_iff)

text \<open>The invariant rule of a loop that may raise.\<close>

lemma efold_invariant:
  assumes run: "efold f xs s = Inr s'"
    and init: "I [] s"
    and step: "\<And>ys x zs t t'. xs = ys @ x # zs \<Longrightarrow> I ys t \<Longrightarrow> f t x = Inr t' \<Longrightarrow> I (ys @ [x]) t'"
  shows "I xs s'"
proof -
  have "efold f zs t = Inr s' \<Longrightarrow> I ys t \<Longrightarrow> xs = ys @ zs \<Longrightarrow> I xs s'" for ys zs t
  proof (induction zs arbitrary: ys t)
    case Nil
    then show ?case by simp
  next
    case (Cons z zs)
    from Cons.prems(1) obtain t' where t': "f t z = Inr t'" and rest: "efold f zs t' = Inr s'"
      by (auto simp: ebind_Inr_iff)
    have "I (ys @ [z]) t'"
      using step [of ys z zs t t'] Cons.prems(2,3) t' by simp
    then show ?case
      using Cons.IH [of t' "ys @ [z]"] rest Cons.prems(3) by simp
  qed
  from this [of xs s "[]"] run init show ?thesis by simp
qed

section \<open>The index arrays of the assembler\<close>


lemma length_np_repeat [simp]: "length (np_repeat xs k) = length xs * k"
  by (induction xs) (simp_all add: np_repeat_def)

lemma length_np_tile [simp]: "length (np_tile xs k) = k * length xs"
  by (induction k) (simp_all add: np_tile_def)

lemma np_repeat_Cons: "np_repeat (x # xs) k = replicate k x @ np_repeat xs k"
  by (simp add: np_repeat_def)

lemma np_tile_Suc: "np_tile xs (Suc k) = xs @ np_tile xs k"
  by (simp add: np_tile_def)

lemma nth_np_repeat: "n < length xs * k \<Longrightarrow> np_repeat xs k ! n = xs ! (n div k)"
proof (induction xs arbitrary: n)
  case Nil
  then show ?case by simp
next
  case (Cons x xs)
  show ?case
  proof (cases "n < k")
    case True
    then show ?thesis by (simp add: np_repeat_Cons nth_append)
  next
    case False
    then have kn: "k \<le> n" by simp
    from Cons.prems have kpos: "0 < k" by (cases k) simp_all
    from Cons.prems kn have "n - k < length xs * k" by simp
    then have "np_repeat xs k ! (n - k) = xs ! ((n - k) div k)" by (rule Cons.IH)
    moreover have "n div k = Suc ((n - k) div k)"
      using kn kpos by (simp add: le_div_geq)
    ultimately show ?thesis using False by (simp add: np_repeat_Cons nth_append)
  qed
qed

lemma nth_np_tile: "n < k * length xs \<Longrightarrow> np_tile xs k ! n = xs ! (n mod length xs)"
proof (induction k arbitrary: n)
  case 0
  then show ?case by simp
next
  case (Suc k)
  show ?case
  proof (cases "n < length xs")
    case True
    then show ?thesis by (simp add: np_tile_Suc nth_append)
  next
    case False
    then have ln: "length xs \<le> n" by simp
    from Suc.prems ln have "n - length xs < k * length xs" by simp
    then have "np_tile xs k ! (n - length xs) = xs ! ((n - length xs) mod length xs)"
      by (rule Suc.IH)
    moreover have "n mod length xs = (n - length xs) mod length xs"
      using ln by (simp add: le_mod_geq)
    ultimately show ?thesis using False by (simp add: np_tile_Suc nth_append)
  qed
qed

lemma block_index_bound:
  fixes e i j a b n :: nat
  assumes "e < n" "i < a" "j < b"
  shows "e * (a * b) + i * b + j < n * (a * b)"
proof -
  have "i * b + j < a * b"
  proof -
    have "i * b + j < i * b + b" using assms(3) by simp
    also have "\<dots> = Suc i * b" by simp
    also have "\<dots> \<le> a * b" using assms(2) by (intro mult_le_mono1) simp
    finally show ?thesis .
  qed
  then have "e * (a * b) + i * b + j < e * (a * b) + a * b" by simp
  also have "\<dots> = Suc e * (a * b)" by simp
  also have "\<dots> \<le> n * (a * b)" using assms(1) by (intro mult_le_mono1) simp
  finally show ?thesis .
qed

lemma block_index_decode:
  fixes e i j a b :: nat
  assumes "i < a" "j < b"
  shows "(e * (a * b) + i * b + j) div (a * b) = e"
    and "(e * (a * b) + i * b + j) mod (a * b) = i * b + j"
    and "(i * b + j) div b = i"
    and "(i * b + j) mod b = j"
proof -
  have lt: "i * b + j < a * b"
  proof -
    have "i * b + j < i * b + b" using assms(2) by simp
    also have "\<dots> = Suc i * b" by simp
    also have "\<dots> \<le> a * b" using assms(1) by (intro mult_le_mono1) simp
    finally show ?thesis .
  qed
  have eq: "e * (a * b) + i * b + j = (i * b + j) + e * (a * b)" by simp
  have pos: "a \<noteq> 0" "b \<noteq> 0" using assms by simp_all
  show "(e * (a * b) + i * b + j) div (a * b) = e"
    unfolding eq using lt pos by simp
  show "(e * (a * b) + i * b + j) mod (a * b) = i * b + j"
    unfolding eq using lt by simp
  show "(i * b + j) div b = i" using assms(2) by simp
  show "(i * b + j) mod b = j" using assms(2) by simp
qed

lemma assemble_sparse_Inr:
  assumes run: "assemble_sparse domain dual_to_range device_kernel trace
                  = (Inr (i_ind, j_ind, result), trace')"
    and els: "active_elements domain dual_to_range = Inr elements"
  shows "i_ind = map2 (+)
           (np_tile (np_repeat [0..<number_of_shape_functions dual_to_range]
              (number_of_shape_functions domain)) (length elements))
           (np_repeat
              (map (\<lambda>e. (e * number_of_shape_functions dual_to_range) mod 2 ^ 32) elements)
              (number_of_shape_functions dual_to_range * number_of_shape_functions domain))"
    and "j_ind = map2 (+)
           (np_tile (np_tile [0..<number_of_shape_functions domain]
              (number_of_shape_functions dual_to_range)) (length elements))
           (np_repeat
              (map (\<lambda>e. (e * number_of_shape_functions domain) mod 2 ^ 32) elements)
              (number_of_shape_functions dual_to_range * number_of_shape_functions domain))"
    and "result = map (device_kernel elements)
           [0..<length elements *
              (number_of_shape_functions domain * number_of_shape_functions dual_to_range)]"
    and "sp_grid domain = sp_grid dual_to_range"
  using run els
  by (simp_all add: assemble_sparse_def prepare_buffers_def Let_def split: if_splits)

lemma assemble_sparse_eq:
  assumes "sp_grid domain = sp_grid dual_to_range"
    and "active_elements domain dual_to_range = Inr elements"
  shows "assemble_sparse domain dual_to_range device_kernel trace =
    (Inr (map2 (+)
           (np_tile (np_repeat [0..<number_of_shape_functions dual_to_range]
              (number_of_shape_functions domain)) (length elements))
           (np_repeat
              (map (\<lambda>e. (e * number_of_shape_functions dual_to_range) mod 2 ^ 32) elements)
              (number_of_shape_functions dual_to_range * number_of_shape_functions domain)),
          map2 (+)
           (np_tile (np_tile [0..<number_of_shape_functions domain]
              (number_of_shape_functions dual_to_range)) (length elements))
           (np_repeat
              (map (\<lambda>e. (e * number_of_shape_functions domain) mod 2 ^ 32) elements)
              (number_of_shape_functions dual_to_range * number_of_shape_functions domain)),
          map (device_kernel elements)
           [0..<length elements *
              (number_of_shape_functions domain * number_of_shape_functions dual_to_range)]),
     trace @ [BufferFromArray, BufferFromArray, PushToDevice, BufferFromArray,
        AllocBuffer (length elements *
              (number_of_shape_functions domain * number_of_shape_functions dual_to_range)),
        BufferFromArray, BufferFromArray, BuildKernel, BuildKernel, RunChunkedKernel,
        GetHostCopy])"
  using assms
  by (simp add: assemble_sparse_def prepare_buffers_def Let_def)

lemma active_elements_second_triangle:
  "active_elements second_triangle_space second_triangle_space = Inr [1]"
proof -
  have m: "mult_masks [False, True] [False, True] = Inr [False, True]"
    by (simp add: mult_masks_def)
  have f: "flatnonzero (\<lambda>b. b) [False, True] = [1]"
    by (simp add: flatnonzero_def upt_rec)
  have w: "map (\<lambda>e. e mod 2 ^ 32) [1::nat] = [1]"
    by simp
  show ?thesis
    unfolding active_elements_def second_triangle_space_def
    by (simp only: space_data.simps m f w ebind_Inr)
qed

lemma index_arrays_second_triangle:
  "map2 (+) (np_tile (np_repeat [0..<3] 3) (length [1::nat]))
      (np_repeat (map (\<lambda>e. (e * 3) mod 2 ^ 32) [1::nat]) (3 * 3))
     = [3, 3, 3, 4, 4, 4, 5, 5, 5]"
  "map2 (+) (np_tile (np_tile [0..<3] 3) (length [1::nat]))
      (np_repeat (map (\<lambda>e. (e * 3) mod 2 ^ 32) [1::nat]) (3 * 3))
     = [3, 4, 5, 3, 4, 5, 3, 4, 5]"
proof -
  have r: "np_repeat [0..<3] 3 = [0, 0, 0, 1, 1, 1, 2, 2, 2]"
    by (simp add: np_repeat_def upt_rec eval_nat_numeral)
  have t: "np_tile [0..<3] 3 = [0, 1, 2, 0, 1, 2, 0, 1, 2]"
    by (simp add: np_tile_def upt_rec eval_nat_numeral)
  have one: "np_tile xs (length [1::nat]) = xs" for xs :: "nat list"
    by (simp add: np_tile_def)
  have w: "map (\<lambda>e. (e * 3) mod 2 ^ 32) [1::nat] = [3]"
    by simp
  have o: "np_repeat [3::nat] (3 * 3) = [3, 3, 3, 3, 3, 3, 3, 3, 3]"
    by (simp add: np_repeat_def eval_nat_numeral)
  show "map2 (+) (np_tile (np_repeat [0..<3] 3) (length [1::nat]))
      (np_repeat (map (\<lambda>e. (e * 3) mod 2 ^ 32) [1::nat]) (3 * 3))
     = [3, 3, 3, 4, 4, 4, 5, 5, 5]"
    unfolding r one w o by simp
  show "map2 (+) (np_tile (np_tile [0..<3] 3) (length [1::nat]))
      (np_repeat (map (\<lambda>e. (e * 3) mod 2 ^ 32) [1::nat]) (3 * 3))
     = [3, 4, 5, 3, 4, 5, 3, 4, 5]"
    unfolding t one w o by simp
qed

lemma result_second_triangle:
  "map (position_kernel [1]) [0..<length [1::nat] * (3 * 3)] = [1, 2, 3, 4, 5, 6, 7, 8, 9]"
  by (simp add: position_kernel_def upt_rec)

lemma assemble_sparse_second_triangle:
  "assemble_sparse second_triangle_space second_triangle_space position_kernel [] =
     (Inr ([3, 3, 3, 4, 4, 4, 5, 5, 5], [3, 4, 5, 3, 4, 5, 3, 4, 5],
           [1, 2, 3, 4, 5, 6, 7, 8, 9]),
      [BufferFromArray, BufferFromArray, PushToDevice, BufferFromArray, AllocBuffer 9,
       BufferFromArray, BufferFromArray, BuildKernel, BuildKernel, RunChunkedKernel,
       GetHostCopy])"
proof -
  have n: "number_of_shape_functions second_triangle_space = 3"
    by (simp add: second_triangle_space_def)
  show ?thesis
    unfolding assemble_sparse_eq [OF refl active_elements_second_triangle] n
      index_arrays_second_triangle result_second_triangle
    by simp
qed

lemma index_arrays_nth:
  assumes run: "assemble_sparse domain dual_to_range device_kernel trace
                  = (Inr (i_ind, j_ind, result), trace')"
    and els: "active_elements domain dual_to_range = Inr elements"
    and e: "e < length elements"
    and i: "i < number_of_shape_functions dual_to_range"
    and j: "j < number_of_shape_functions domain"
  shows "i_ind ! (e * (number_of_shape_functions dual_to_range *
                       number_of_shape_functions domain)
                  + i * number_of_shape_functions domain + j)
           = i + (elements ! e * number_of_shape_functions dual_to_range) mod 2 ^ 32
       \<and> j_ind ! (e * (number_of_shape_functions dual_to_range *
                       number_of_shape_functions domain)
                  + i * number_of_shape_functions domain + j)
           = j + (elements ! e * number_of_shape_functions domain) mod 2 ^ 32"
proof -
  let ?nt = "number_of_shape_functions dual_to_range"
  let ?ntr = "number_of_shape_functions domain"
  let ?n = "e * (?nt * ?ntr) + i * ?ntr + j"
  note dec = block_index_decode(1,2) [where e = e, OF i j] block_index_decode(3,4) [OF i j]
  have lt: "?n < length elements * (?nt * ?ntr)"
    using e i j by (rule block_index_bound)
  have inner: "i * ?ntr + j < ?nt * ?ntr"
    using block_index_bound [of 0 1 i ?nt j ?ntr] i j by simp
  have A: "np_tile (np_repeat [0..<?nt] ?ntr) (length elements) ! ?n = i"
  proof -
    have "np_tile (np_repeat [0..<?nt] ?ntr) (length elements) ! ?n
            = np_repeat [0..<?nt] ?ntr ! (?n mod (?nt * ?ntr))"
      using lt by (simp add: nth_np_tile)
    also have "\<dots> = np_repeat [0..<?nt] ?ntr ! (i * ?ntr + j)"
      by (simp only: dec)
    also have "\<dots> = [0..<?nt] ! ((i * ?ntr + j) div ?ntr)"
      using inner by (simp add: nth_np_repeat)
    also have "\<dots> = i"
      using i by (simp only: dec) simp
    finally show ?thesis .
  qed
  have A': "np_tile (np_tile [0..<?ntr] ?nt) (length elements) ! ?n = j"
  proof -
    have "np_tile (np_tile [0..<?ntr] ?nt) (length elements) ! ?n
            = np_tile [0..<?ntr] ?nt ! (?n mod (?nt * ?ntr))"
      using lt by (simp add: nth_np_tile)
    also have "\<dots> = np_tile [0..<?ntr] ?nt ! (i * ?ntr + j)"
      by (simp only: dec)
    also have "\<dots> = [0..<?ntr] ! ((i * ?ntr + j) mod ?ntr)"
      using inner by (simp add: nth_np_tile)
    also have "\<dots> = j"
      using j by (simp only: dec) simp
    finally show ?thesis .
  qed
  have B: "np_repeat (map f elements) (?nt * ?ntr) ! ?n = f (elements ! e)"
    for f :: "nat \<Rightarrow> nat"
  proof -
    have "np_repeat (map f elements) (?nt * ?ntr) ! ?n
            = map f elements ! (?n div (?nt * ?ntr))"
      using lt by (simp add: nth_np_repeat)
    also have "\<dots> = f (elements ! e)"
      using e by (simp only: dec) simp
    finally show ?thesis .
  qed
  have len: "length (np_tile (np_repeat [0..<?nt] ?ntr) (length elements))
               = length elements * (?nt * ?ntr)"
    "length (np_tile (np_tile [0..<?ntr] ?nt) (length elements))
               = length elements * (?nt * ?ntr)"
    "length (np_repeat (map f elements) (?nt * ?ntr)) = length elements * (?nt * ?ntr)"
    for f :: "nat \<Rightarrow> nat"
    by simp_all
  show ?thesis
    unfolding assemble_sparse_Inr(1,2) [OF run els]
    using lt by (simp only: nth_zip nth_map length_zip length_map len min.idem
        A A' B prod.case)
qed

text \<open>
  Claim C3, as amended. In the index arrays that \<open>assemble_sparse\<close> returns, the block of
  the active element at position \<open>e\<close> is laid out row-major, and the entry for the test
  slot \<open>i\<close> and the trial slot \<open>j\<close> holds the row index \<open>i\<close> and the column index \<open>j\<close>
  offset by the element index \<open>elements ! e\<close> times the number of test, respectively trial,
  shape functions, the product taken in \<open>uint32\<close>.
\<close>

theorem index_reconstruction_offsets:
  assumes run: "assemble_sparse domain dual_to_range device_kernel trace
                  = (Inr (i_ind, j_ind, result), trace')"
    and els: "active_elements domain dual_to_range = Inr elements"
    and e: "e < length elements"
    and i: "i < number_of_shape_functions dual_to_range"
    and j: "j < number_of_shape_functions domain"
  shows "i_ind ! (e * (number_of_shape_functions dual_to_range *
                       number_of_shape_functions domain)
                  + i * number_of_shape_functions domain + j)
           = i + (elements ! e * number_of_shape_functions dual_to_range) mod 2 ^ 32
       \<and> j_ind ! (e * (number_of_shape_functions dual_to_range *
                       number_of_shape_functions domain)
                  + i * number_of_shape_functions domain + j)
           = j + (elements ! e * number_of_shape_functions domain) mod 2 ^ 32"
  using assms by (rule index_arrays_nth)

text \<open>The theorem at the space of the second of two triangles, position 0, slots 1 and 2.\<close>

theorem index_reconstruction_offsets_witness:
  "assemble_sparse second_triangle_space second_triangle_space position_kernel [] =
     (Inr ([3, 3, 3, 4, 4, 4, 5, 5, 5], [3, 4, 5, 3, 4, 5, 3, 4, 5],
           [1, 2, 3, 4, 5, 6, 7, 8, 9]),
      [BufferFromArray, BufferFromArray, PushToDevice, BufferFromArray, AllocBuffer 9,
       BufferFromArray, BufferFromArray, BuildKernel, BuildKernel, RunChunkedKernel,
       GetHostCopy])
   \<and> active_elements second_triangle_space second_triangle_space = Inr [1]
   \<and> [3, 3, 3, 4, 4, 4, 5, 5, 5] ! (0 * (3 * 3) + 1 * 3 + 2)
       = (1::nat) + ([1] ! 0 * 3) mod 2 ^ 32
   \<and> [3, 4, 5, 3, 4, 5, 3, 4, 5] ! (0 * (3 * 3) + 1 * 3 + 2)
       = (2::nat) + ([1] ! 0 * 3) mod 2 ^ 32"
proof -
  have n: "number_of_shape_functions second_triangle_space = 3"
    by (simp add: second_triangle_space_def)
  have "(0::nat) < length [1::nat]" "(1::nat) < 3" "(2::nat) < 3"
    by simp_all
  from index_reconstruction_offsets [OF assemble_sparse_second_triangle
      active_elements_second_triangle, of 0 1 2, unfolded n, OF this]
  show ?thesis
    using assemble_sparse_second_triangle active_elements_second_triangle
    by blast
qed

text \<open>
  Claim C3 as the specification states it, with the offset taken from the position, fails
  at this input: with the second triangle alone in the support, position 0 holds the
  element 1, and the first row index is 3, not 0.
\<close>

theorem position_offset_counterexample:
  "fst (assemble_sparse second_triangle_space second_triangle_space position_kernel []) =
     Inr ([3, 3, 3, 4, 4, 4, 5, 5, 5], [3, 4, 5, 3, 4, 5, 3, 4, 5],
          [1, 2, 3, 4, 5, 6, 7, 8, 9])
   \<and> [3, 3, 3, 4, 4, 4, 5, 5, 5] ! (0 * (3 * 3) + 0 * 3 + 0) \<noteq> 0 + (0::nat) * 3"
  by (simp add: assemble_sparse_second_triangle)

section \<open>The precondition on the grids\<close>

lemma mult_masks_error: "mult_masks a b = Inl e \<Longrightarrow> e = ShapeMismatch"
  by (auto simp: mult_masks_def split: if_splits)

lemma active_elements_error: "active_elements d r = Inl e \<Longrightarrow> e = ShapeMismatch"
  by (auto simp: active_elements_def ebind_Inl_iff dest: mult_masks_error)

lemma gather_error: "gather xs idx = Inl e \<Longrightarrow> e = IndexError"
  by (auto simp: gather_def split: if_splits)

lemma np_mult_error: "np_mult a b = Inl e \<Longrightarrow> e = ShapeMismatch"
  by (auto simp: np_mult_def split: if_splits)

lemma coo_matrix_error: "coo_matrix d r c s = Inl e \<Longrightarrow> e = IndexExceedsShape"
  by (auto simp: coo_matrix_def split: if_splits)

lemma assemble_sparse_same_grid:
  assumes "sp_grid domain = sp_grid dual_to_range"
  shows "fst (assemble_sparse domain dual_to_range k tr) \<noteq> Inl GridMismatch"
proof (cases "active_elements domain dual_to_range")
  case (Inl e)
  then have "e = ShapeMismatch" by (rule active_elements_error)
  with Inl assms show ?thesis
    by (simp add: assemble_sparse_def prepare_buffers_def)
next
  case (Inr els)
  show ?thesis
    by (simp add: assemble_sparse_eq [OF assms Inr])
qed

lemma assemble_same_grid:
  assumes "sp_grid domain = sp_grid dual_to_range"
  shows "fst (assemble domain dual_to_range k tr) \<noteq> Inl GridMismatch"
proof (cases "assemble_sparse domain dual_to_range k tr")
  case (Pair r tr')
  show ?thesis
  proof (cases r)
    case (Inl e)
    with Pair assemble_sparse_same_grid [OF assms, of k tr] show ?thesis
      by (simp add: assemble_def)
  next
    case (Inr t)
    obtain rows cols data where t: "t = (rows, cols, data)"
      by (cases t) auto
    show ?thesis
      using Pair Inr t
      by (auto simp: assemble_def Let_def ebind_Inl_iff
          dest: gather_error np_mult_error coo_matrix_error)
  qed
qed

text \<open>
  Claim C7. When the grids of the two spaces differ, \<open>assemble_sparse\<close> and \<open>assemble\<close>
  fail with the grid mismatch error and leave the trace of device calls as it was: no
  buffer is allocated and no kernel is built or run. When the grids are the same, that
  error is not raised.
\<close>
theorem grid_mismatch_precondition:
  "(sp_grid domain \<noteq> sp_grid dual_to_range \<longrightarrow>
      assemble_sparse domain dual_to_range k tr = (Inl GridMismatch, tr)
      \<and> assemble domain dual_to_range k tr = (Inl GridMismatch, tr))
   \<and> (sp_grid domain = sp_grid dual_to_range \<longrightarrow>
      fst (assemble_sparse domain dual_to_range k tr) \<noteq> Inl GridMismatch
      \<and> fst (assemble domain dual_to_range k tr) \<noteq> Inl GridMismatch)"
proof (intro conjI impI)
  assume ne: "sp_grid domain \<noteq> sp_grid dual_to_range"
  then show sparse: "assemble_sparse domain dual_to_range k tr = (Inl GridMismatch, tr)"
    by (simp add: assemble_sparse_def)
  then show "assemble domain dual_to_range k tr = (Inl GridMismatch, tr)"
    by (simp add: assemble_def)
next
  assume "sp_grid domain = sp_grid dual_to_range"
  then show "fst (assemble_sparse domain dual_to_range k tr) \<noteq> Inl GridMismatch"
    by (rule assemble_sparse_same_grid)
next
  assume "sp_grid domain = sp_grid dual_to_range"
  then show "fst (assemble domain dual_to_range k tr) \<noteq> Inl GridMismatch"
    by (rule assemble_same_grid)
qed

text \<open>Two spaces on different grids, and two spaces on the grid of the two triangles.\<close>

theorem grid_mismatch_precondition_witness:
  "sp_grid shared_edge_space \<noteq> sp_grid triangle_space
   \<and> assemble_sparse shared_edge_space triangle_space position_kernel []
       = (Inl GridMismatch, [])
   \<and> assemble shared_edge_space triangle_space position_kernel [] = (Inl GridMismatch, [])
   \<and> sp_grid shared_edge_space = sp_grid second_triangle_space
   \<and> fst (assemble_sparse shared_edge_space second_triangle_space position_kernel [])
       \<noteq> Inl GridMismatch
   \<and> fst (assemble shared_edge_space second_triangle_space position_kernel [])
       \<noteq> Inl GridMismatch"
proof -
  have ne: "sp_grid shared_edge_space \<noteq> sp_grid triangle_space"
    by (simp add: shared_edge_space_def triangle_space_def two_triangles_def
        single_triangle_def)
  have eq: "sp_grid shared_edge_space = sp_grid second_triangle_space"
    by (simp add: shared_edge_space_def second_triangle_space_def)
  show ?thesis
    using ne eq
      grid_mismatch_precondition [of shared_edge_space triangle_space position_kernel "[]"]
      grid_mismatch_precondition [of shared_edge_space second_triangle_space
        position_kernel "[]"]
    by blast
qed

text \<open>
  Claim C8. Both entry points of the surface gradient of the RWG space raise
  NotImplementedError for every argument, and never return a value.
\<close>
theorem surface_gradient_unsupported:
  "surface_gradient self element local_coordinates = Inl NotImplemented
   \<and> (\<forall>v. surface_gradient self element local_coordinates \<noteq> Inr v)
   \<and> numba_surface_gradient self = (Inl NotImplemented :: error + 'f)
   \<and> (\<forall>v :: 'f. numba_surface_gradient self \<noteq> Inr v)"
  by (simp add: surface_gradient_def numba_surface_gradient_def)

section \<open>The entries of the assembled matrix\<close>

lemma concat_nth_uniform:
  assumes "\<forall>row \<in> set xss. length row = m" "a < length xss" "i < m"
  shows "concat xss ! (a * m + i) = xss ! a ! i"
  using assms
proof (induction xss arbitrary: a)
  case Nil
  then show ?case by simp
next
  case (Cons xs xss)
  have len: "length xs = m" using Cons.prems(1) by simp
  show ?case
  proof (cases a)
    case 0
    with len Cons.prems(3) show ?thesis by (simp add: nth_append)
  next
    case (Suc a')
    have "concat xss ! (a' * m + i) = xss ! a' ! i"
      using Cons.IH [of a'] Cons.prems Suc by simp
    with len Suc show ?thesis by (simp add: nth_append)
  qed
qed

lemma length_concat_uniform:
  "\<forall>row \<in> set xss. length row = m \<Longrightarrow> length (concat xss) = length xss * m"
  by (induction xss) simp_all

lemma sum_list_filter_nth:
  fixes f :: "'a \<Rightarrow> real"
  shows "sum_list (map f (filter P xs)) = (\<Sum>k<length xs. if P (xs ! k) then f (xs ! k) else 0)"
proof -
  have "sum_list (map f (filter P xs)) = sum_list (map (\<lambda>x. if P x then f x else 0) xs)"
    by (induction xs) simp_all
  also have "\<dots> = (\<Sum>k = 0..<length xs. map (\<lambda>x. if P x then f x else 0) xs ! k)"
    by (simp only: sum_list_sum_nth length_map)
  also have "\<dots> = (\<Sum>k<length xs. if P (xs ! k) then f (xs ! k) else 0)"
    by (simp add: lessThan_atLeast0)
  finally show ?thesis .
qed

lemma sum_append_block:
  fixes g :: "nat \<Rightarrow> real"
  shows "(\<Sum>k<c + m. g k) = (\<Sum>k<c. g k) + (\<Sum>q<m. g (c + q))"
  by (induction m) (simp_all add: add.assoc)

lemma sum_blocks:
  fixes g :: "nat \<Rightarrow> real"
  shows "(\<Sum>k<n * m. g k) = (\<Sum>p<n. \<Sum>q<m. g (p * m + q))"
proof (induction n)
  case 0
  then show ?case by simp
next
  case (Suc n)
  have "(\<Sum>k<Suc n * m. g k) = (\<Sum>k<n * m + m. g k)"
    by (simp add: add.commute)
  also have "\<dots> = (\<Sum>k<n * m. g k) + (\<Sum>q<m. g (n * m + q))"
    by (rule sum_append_block)
  finally show ?case using Suc.IH by simp
qed

lemma sum_blocks3:
  fixes g :: "nat \<Rightarrow> real"
  shows "(\<Sum>k<n * (a * b). g k) = (\<Sum>p<n. \<Sum>i<a. \<Sum>j<b. g (p * (a * b) + i * b + j))"
proof -
  have "(\<Sum>k<n * (a * b). g k) = (\<Sum>p<n. \<Sum>q<a * b. g (p * (a * b) + q))"
    by (rule sum_blocks)
  also have "\<dots> = (\<Sum>p<n. \<Sum>i<a. \<Sum>j<b. g (p * (a * b) + (i * b + j)))"
    by (simp only: sum_blocks [of "\<lambda>q. g (p * (a * b) + q)" a b for p])
  finally show ?thesis by (simp only: add.assoc)
qed

lemma gather_Inr_iff:
  "gather xs idx = Inr ys \<longleftrightarrow> (\<forall>i \<in> set idx. i < length xs) \<and> ys = map ((!) xs) idx"
  by (auto simp: gather_def)

lemma np_mult_same_length: "length a = length b \<Longrightarrow> np_mult a b = Inr (map2 (*) a b)"
  by (simp add: np_mult_def)

lemma coo_matrix_Inr: "coo_matrix d r c s = Inr M \<Longrightarrow> triplets M = zip r (zip c d)"
  by (auto simp: coo_matrix_def split: if_splits)

lemma flatnonzero_map2_and:
  assumes "length a = n" "length b = n"
  shows "flatnonzero (\<lambda>b. b) (map2 (\<and>) a b) = filter (\<lambda>el. a ! el \<and> b ! el) [0..<n]"
  using assms by (auto simp: flatnonzero_def intro!: filter_cong)

lemma map_mod_small:
  assumes "\<forall>x \<in> set xs. x < (m::nat)"
  shows "map (\<lambda>e. e mod m) xs = xs"
  using assms by (induction xs) simp_all

lemma active_elements_intersection:
  assumes d: "space_shape_ok domain" and r: "space_shape_ok dual_to_range"
    and g: "sp_grid domain = sp_grid dual_to_range"
    and u: "number_of_elements (sp_grid domain) \<le> 2 ^ 32"
  shows "active_elements domain dual_to_range =
     Inr (filter (\<lambda>el. sp_support domain ! el \<and> sp_support dual_to_range ! el)
            [0..<number_of_elements (sp_grid domain)])"
proof -
  let ?n = "number_of_elements (sp_grid domain)"
  have l1: "length (sp_support domain) = ?n"
    using d by (simp add: space_shape_ok_def)
  have l2: "length (sp_support dual_to_range) = ?n"
    using r g by (simp add: space_shape_ok_def)
  have mm: "mult_masks (sp_support domain) (sp_support dual_to_range)
              = Inr (map2 (\<and>) (sp_support domain) (sp_support dual_to_range))"
    using l1 l2 by (simp add: mult_masks_def)
  have small: "\<forall>x \<in> set (filter (\<lambda>el. sp_support domain ! el \<and> sp_support dual_to_range ! el)
                                [0..<?n]). x < 2 ^ 32"
    using u by auto
  show ?thesis
    unfolding active_elements_def mm ebind_Inr flatnonzero_map2_and [OF l1 l2]
    by (simp only: map_mod_small [OF small])
qed

lemma assemble_Inr_grid:
  assumes "assemble domain dual_to_range k tr = (Inr M, tr')"
  shows "sp_grid domain = sp_grid dual_to_range"
proof (rule ccontr)
  assume "sp_grid domain \<noteq> sp_grid dual_to_range"
  then have "assemble domain dual_to_range k tr = (Inl GridMismatch, tr)"
    by (simp add: assemble_def assemble_sparse_def)
  with assms show False by simp
qed

lemma assemble_Inr_triplets:
  assumes run: "assemble domain dual_to_range k tr = (Inr M, tr')"
    and sparse: "assemble_sparse domain dual_to_range k tr = (Inr (rows, cols, data), tr2)"
    and len: "length rows = length data" "length cols = length data"
  shows "triplets M =
     zip (map ((!) (concat (local2global dual_to_range))) rows)
       (zip (map ((!) (concat (local2global domain))) cols)
          (map2 (*) (map2 (*) data (map of_int (map ((!) (concat (multipliers domain))) cols)))
             (map of_int (map ((!) (concat (multipliers dual_to_range))) rows))))"
proof -
  from run sparse obtain new_rows new_cols tm sm where
    nr: "gather (concat (local2global dual_to_range)) rows = Inr new_rows" and
    nc: "gather (concat (local2global domain)) cols = Inr new_cols" and
    tm: "gather (concat (multipliers domain)) cols = Inr tm"
    by (auto simp: assemble_def Let_def ebind_Inr_iff)
  have nr': "new_rows = map ((!) (concat (local2global dual_to_range))) rows"
    and nc': "new_cols = map ((!) (concat (local2global domain))) cols"
    and tm': "tm = map ((!) (concat (multipliers domain))) cols"
    using nr nc tm by (simp_all add: gather_Inr_iff)
  have m1: "np_mult data (map of_int tm) = Inr (map2 (*) data (map of_int tm))"
    using len tm' by (intro np_mult_same_length) simp
  from run sparse nr nc tm m1 obtain sm where
    sm: "gather (concat (multipliers dual_to_range)) rows = Inr sm" and
    rest: "ebind (np_mult (map2 (*) data (map of_int tm)) (map of_int sm))
             (\<lambda>new_data. coo_matrix new_data new_rows new_cols
                (global_dof_count dual_to_range, global_dof_count domain)) = Inr M"
    by (auto simp: assemble_def Let_def ebind_Inr_iff)
  have sm': "sm = map ((!) (concat (multipliers dual_to_range))) rows"
    using sm by (simp add: gather_Inr_iff)
  have m2: "np_mult (map2 (*) data (map of_int tm)) (map of_int sm)
              = Inr (map2 (*) (map2 (*) data (map of_int tm)) (map of_int sm))"
    using len tm' sm' by (intro np_mult_same_length) simp
  from rest have "coo_matrix (map2 (*) (map2 (*) data (map of_int tm)) (map of_int sm))
       new_rows new_cols (global_dof_count dual_to_range, global_dof_count domain) = Inr M"
    unfolding m2 by simp
  then show ?thesis
    unfolding nr' nc' tm' sm' by (rule coo_matrix_Inr)
qed

lemma assemble_Inr_gather_bounds:
  assumes run: "assemble domain dual_to_range k tr = (Inr M, tr')"
    and sparse: "assemble_sparse domain dual_to_range k tr = (Inr (rows, cols, data), tr2)"
  shows "\<forall>i \<in> set rows. i < length (concat (local2global dual_to_range))"
    and "\<forall>i \<in> set cols. i < length (concat (local2global domain))"
  using run sparse
  by (auto simp: assemble_def Let_def ebind_Inr_iff gather_Inr_iff)

lemma assembled_entry_sum:
  fixes domain dual_to_range :: space_data
  defines "nt \<equiv> number_of_shape_functions dual_to_range"
    and "ntr \<equiv> number_of_shape_functions domain"
    and "elements \<equiv> filter (\<lambda>el. sp_support domain ! el \<and> sp_support dual_to_range ! el)
                        [0..<number_of_elements (sp_grid domain)]"
  assumes run: "assemble domain dual_to_range device_kernel trace = (Inr M, trace')"
    and d: "space_shape_ok domain" and du: "uint32_exact domain"
    and r: "space_shape_ok dual_to_range" and ru: "uint32_exact dual_to_range"
  shows "entry M row col =
     (\<Sum>p<length elements. \<Sum>i<nt. \<Sum>j<ntr.
        if local2global dual_to_range ! (elements ! p) ! i = row
           \<and> local2global domain ! (elements ! p) ! j = col
        then device_kernel elements (p * (nt * ntr) + i * ntr + j)
             * of_int (multipliers domain ! (elements ! p) ! j)
             * of_int (multipliers dual_to_range ! (elements ! p) ! i)
        else 0)"
proof -
  let ?n = "number_of_elements (sp_grid domain)"
  let ?N = "length elements * (nt * ntr)"
  have g: "sp_grid domain = sp_grid dual_to_range"
    using run by (rule assemble_Inr_grid)
  have n32: "?n \<le> 2 ^ 32" using du by (simp add: uint32_exact_def)
  have els: "active_elements domain dual_to_range = Inr elements"
    unfolding elements_def using d r g n32 by (rule active_elements_intersection)
  define rows where "rows = map2 (+) (np_tile (np_repeat [0..<nt] ntr) (length elements))
           (np_repeat (map (\<lambda>e. (e * nt) mod 2 ^ 32) elements) (nt * ntr))"
  define cols where "cols = map2 (+) (np_tile (np_tile [0..<ntr] nt) (length elements))
           (np_repeat (map (\<lambda>e. (e * ntr) mod 2 ^ 32) elements) (nt * ntr))"
  define data where "data = map (device_kernel elements) [0..<length elements * (ntr * nt)]"
  obtain tr2 where sparse:
    "assemble_sparse domain dual_to_range device_kernel trace = (Inr (rows, cols, data), tr2)"
    unfolding rows_def cols_def data_def nt_def ntr_def
    using assemble_sparse_eq [OF g els [unfolded nt_def ntr_def], of device_kernel trace]
    by simp
  have lr: "length rows = ?N" and lc: "length cols = ?N" and ld: "length data = ?N"
    by (simp_all add: rows_def cols_def data_def mult.commute)
  let ?tl = "concat (local2global dual_to_range)"
  let ?dl = "concat (local2global domain)"
  let ?tm = "concat (multipliers dual_to_range)"
  let ?dm = "concat (multipliers domain)"
  define R where "R = map ((!) ?tl) rows"
  define C where "C = map ((!) ?dl) cols"
  define D where "D = map2 (*) (map2 (*) data (map of_int (map ((!) ?dm) cols)))
                        (map of_int (map ((!) ?tm) rows))"
  have trip: "triplets M = zip R (zip C D)"
    unfolding R_def C_def D_def
    using run sparse by (rule assemble_Inr_triplets) (simp_all add: lr lc ld)
  have lR: "length R = ?N" and lC: "length C = ?N" and lD: "length D = ?N"
    by (simp_all add: R_def C_def D_def lr lc ld)
  have lT: "length (zip R (zip C D)) = ?N"
    by (simp add: lR lC lD)
  have step1: "entry M row col = (\<Sum>k<?N. if R ! k = row \<and> C ! k = col then D ! k else 0)"
  proof -
    have "entry M row col =
        (\<Sum>k<length (zip R (zip C D)).
           if (case zip R (zip C D) ! k of (r', c', v) \<Rightarrow> r' = row \<and> c' = col)
           then (case zip R (zip C D) ! k of (r', c', v) \<Rightarrow> v) else 0)"
      unfolding entry_def trip by (rule sum_list_filter_nth)
    also have "\<dots> = (\<Sum>k<?N. if R ! k = row \<and> C ! k = col then D ! k else 0)"
      unfolding lT
      by (rule sum.cong) (simp_all add: lR lC lD)
    finally show ?thesis .
  qed
  have point: "(if R ! k = row \<and> C ! k = col then D ! k else 0) =
        (if local2global dual_to_range ! (elements ! p) ! i = row
            \<and> local2global domain ! (elements ! p) ! j = col
         then device_kernel elements k
              * of_int (multipliers domain ! (elements ! p) ! j)
              * of_int (multipliers dual_to_range ! (elements ! p) ! i)
         else 0)"
    if p: "p < length elements" and i: "i < nt" and j: "j < ntr"
      and k: "k = p * (nt * ntr) + i * ntr + j" for p i j k
  proof -
    have kN: "k < ?N"
      unfolding k using p i j by (rule block_index_bound)
    have el: "elements ! p < ?n"
      using nth_mem [OF p] by (simp add: elements_def)
    have idx: "rows ! k = i + (elements ! p * nt) mod 2 ^ 32"
      "cols ! k = j + (elements ! p * ntr) mod 2 ^ 32"
      using index_arrays_nth [OF sparse els p i [unfolded nt_def] j [unfolded ntr_def]]
      unfolding k nt_def ntr_def by simp_all
    have "elements ! p * nt + nt \<le> ?n * nt"
      using el mult_le_mono1 [of "Suc (elements ! p)" ?n nt] by simp
    moreover have "?n * nt \<le> 2 ^ 32"
      using ru g by (simp add: uint32_exact_def nt_def)
    ultimately have w1: "(elements ! p * nt) mod 2 ^ 32 = elements ! p * nt"
      using i by simp
    have "elements ! p * ntr + ntr \<le> ?n * ntr"
      using el mult_le_mono1 [of "Suc (elements ! p)" ?n ntr] by simp
    moreover have "?n * ntr \<le> 2 ^ 32"
      using du by (simp add: uint32_exact_def ntr_def)
    ultimately have w2: "(elements ! p * ntr) mod 2 ^ 32 = elements ! p * ntr"
      using j by simp
    have rk: "rows ! k = elements ! p * nt + i" and ck: "cols ! k = elements ! p * ntr + j"
      using idx w1 w2 by simp_all
    have tl: "?tl ! (elements ! p * nt + i) = local2global dual_to_range ! (elements ! p) ! i"
      using r g el i
      by (intro concat_nth_uniform) (simp_all add: space_shape_ok_def nt_def)
    have tm: "?tm ! (elements ! p * nt + i) = multipliers dual_to_range ! (elements ! p) ! i"
      using r g el i
      by (intro concat_nth_uniform) (simp_all add: space_shape_ok_def nt_def)
    have dl: "?dl ! (elements ! p * ntr + j) = local2global domain ! (elements ! p) ! j"
      using d el j
      by (intro concat_nth_uniform) (simp_all add: space_shape_ok_def ntr_def)
    have dm: "?dm ! (elements ! p * ntr + j) = multipliers domain ! (elements ! p) ! j"
      using d el j
      by (intro concat_nth_uniform) (simp_all add: space_shape_ok_def ntr_def)
    have Rk: "R ! k = local2global dual_to_range ! (elements ! p) ! i"
      using kN by (simp add: R_def lr rk tl)
    have Ck: "C ! k = local2global domain ! (elements ! p) ! j"
      using kN by (simp add: C_def lc ck dl)
    have dk: "data ! k = device_kernel elements k"
      using kN by (simp add: data_def mult.commute)
    have Dk: "D ! k = device_kernel elements k
              * of_int (multipliers domain ! (elements ! p) ! j)
              * of_int (multipliers dual_to_range ! (elements ! p) ! i)"
      using kN by (simp add: D_def lr lc ld rk ck tm dm dk)
    show ?thesis
      by (simp only: Rk Ck Dk)
  qed
  have "entry M row col = (\<Sum>k<?N. if R ! k = row \<and> C ! k = col then D ! k else 0)"
    by (rule step1)
  also have "\<dots> = (\<Sum>p<length elements. \<Sum>i<nt. \<Sum>j<ntr.
       if R ! (p * (nt * ntr) + i * ntr + j) = row \<and> C ! (p * (nt * ntr) + i * ntr + j) = col
       then D ! (p * (nt * ntr) + i * ntr + j) else 0)"
    by (rule sum_blocks3)
  also have "\<dots> = (\<Sum>p<length elements. \<Sum>i<nt. \<Sum>j<ntr.
        if local2global dual_to_range ! (elements ! p) ! i = row
           \<and> local2global domain ! (elements ! p) ! j = col
        then device_kernel elements (p * (nt * ntr) + i * ntr + j)
             * of_int (multipliers domain ! (elements ! p) ! j)
             * of_int (multipliers dual_to_range ! (elements ! p) ! i)
        else 0)"
    by (intro sum.cong refl point) simp_all
  finally show ?thesis .
qed

lemma shared_edge_space_ok:
  "space_shape_ok shared_edge_space" "uint32_exact shared_edge_space"
  by (simp_all add: space_shape_ok_def uint32_exact_def shared_edge_space_def two_triangles_def)

lemma active_elements_shared_edge:
  "active_elements shared_edge_space shared_edge_space = Inr [0, 1]"
proof -
  have n: "number_of_elements (sp_grid shared_edge_space) \<le> 2 ^ 32"
    using shared_edge_space_ok(2) by (simp add: uint32_exact_def)
  have f: "filter (\<lambda>el. sp_support shared_edge_space ! el \<and> sp_support shared_edge_space ! el)
             [0..<number_of_elements (sp_grid shared_edge_space)] = [0, 1]"
    by (simp add: shared_edge_space_def two_triangles_def upt_rec)
  show ?thesis
    using active_elements_intersection [OF shared_edge_space_ok(1) shared_edge_space_ok(1) refl n]
    unfolding f .
qed

lemma assemble_sparse_shared_edge:
  "assemble_sparse shared_edge_space shared_edge_space position_kernel [] =
     (Inr ([0, 0, 0, 1, 1, 1, 2, 2, 2, 3, 3, 3, 4, 4, 4, 5, 5, 5],
           [0, 1, 2, 0, 1, 2, 0, 1, 2, 3, 4, 5, 3, 4, 5, 3, 4, 5],
           [1, 2, 3, 4, 5, 6, 7, 8, 9, 10, 11, 12, 13, 14, 15, 16, 17, 18]),
      [BufferFromArray, BufferFromArray, PushToDevice, BufferFromArray, AllocBuffer 18,
       BufferFromArray, BufferFromArray, BuildKernel, BuildKernel, RunChunkedKernel,
       GetHostCopy])"
proof -
  have n: "number_of_shape_functions shared_edge_space = 3"
    by (simp add: shared_edge_space_def)
  have r: "np_repeat [0..<3] 3 = [0, 0, 0, 1, 1, 1, 2, 2, 2]"
    by (simp add: np_repeat_def upt_rec eval_nat_numeral)
  have t: "np_tile [0..<3] 3 = [0, 1, 2, 0, 1, 2, 0, 1, 2]"
    by (simp add: np_tile_def upt_rec eval_nat_numeral)
  have two: "np_tile xs (length [0::nat, 1]) = xs @ xs" for xs :: "nat list"
    by (simp add: np_tile_def eval_nat_numeral)
  have w: "map (\<lambda>e. (e * 3) mod 2 ^ 32) [0::nat, 1] = [0, 3]"
    by simp
  have o: "np_repeat [0::nat, 3] (3 * 3)
             = [0, 0, 0, 0, 0, 0, 0, 0, 0, 3, 3, 3, 3, 3, 3, 3, 3, 3]"
    by (simp add: np_repeat_def eval_nat_numeral)
  have i: "map2 (+) (np_tile (np_repeat [0..<3] 3) (length [0::nat, 1]))
      (np_repeat (map (\<lambda>e. (e * 3) mod 2 ^ 32) [0::nat, 1]) (3 * 3))
     = [0, 0, 0, 1, 1, 1, 2, 2, 2, 3, 3, 3, 4, 4, 4, 5, 5, 5]"
    unfolding r two w o by simp
  have j: "map2 (+) (np_tile (np_tile [0..<3] 3) (length [0::nat, 1]))
      (np_repeat (map (\<lambda>e. (e * 3) mod 2 ^ 32) [0::nat, 1]) (3 * 3))
     = [0, 1, 2, 0, 1, 2, 0, 1, 2, 3, 4, 5, 3, 4, 5, 3, 4, 5]"
    unfolding t two w o by simp
  have d: "map (position_kernel [0, 1]) [0..<length [0::nat, 1] * (3 * 3)]
     = [1, 2, 3, 4, 5, 6, 7, 8, 9, 10, 11, 12, 13, 14, 15, 16, 17, 18]"
    by (simp add: position_kernel_def upt_rec)
  show ?thesis
    unfolding assemble_sparse_eq [OF refl active_elements_shared_edge] n i j d
    by simp
qed

lemma assemble_shared_edge:
  "assemble shared_edge_space shared_edge_space position_kernel [] =
     (Inr \<lparr>shape = (1, 1),
           triplets =
             zip [0, 0, 0, 0, 0, 0, 0, 0, 0, 0, 0, 0, 0, 0, 0, 0, 0, 0]
               (zip [0, 0, 0, 0, 0, 0, 0, 0, 0, 0, 0, 0, 0, 0, 0, 0, 0, 0]
                  [0, 0, 0, 0, 0, 0, 0, 0, 9, 10, 0, 0, 0, 0, 0, 0, 0, 0])\<rparr>,
      [BufferFromArray, BufferFromArray, PushToDevice, BufferFromArray, AllocBuffer 18,
       BufferFromArray, BufferFromArray, BuildKernel, BuildKernel, RunChunkedKernel,
       GetHostCopy])"
proof -
  have l: "concat (local2global shared_edge_space) = [0, 0, 0, 0, 0, 0]"
    and m: "concat (multipliers shared_edge_space) = [0, 0, 1, - 1, 0, 0]"
    and c: "global_dof_count shared_edge_space = 1"
    by (simp_all add: shared_edge_space_def)
  have g1: "gather [0::nat, 0, 0, 0, 0, 0]
              [0, 0, 0, 1, 1, 1, 2, 2, 2, 3, 3, 3, 4, 4, 4, 5, 5, 5]
            = Inr [0, 0, 0, 0, 0, 0, 0, 0, 0, 0, 0, 0, 0, 0, 0, 0, 0, 0]"
    by (simp add: gather_def)
  have g2: "gather [0::nat, 0, 0, 0, 0, 0]
              [0, 1, 2, 0, 1, 2, 0, 1, 2, 3, 4, 5, 3, 4, 5, 3, 4, 5]
            = Inr [0, 0, 0, 0, 0, 0, 0, 0, 0, 0, 0, 0, 0, 0, 0, 0, 0, 0]"
    by (simp add: gather_def)
  have g3: "gather [0::int, 0, 1, - 1, 0, 0]
              [0, 1, 2, 0, 1, 2, 0, 1, 2, 3, 4, 5, 3, 4, 5, 3, 4, 5]
            = Inr [0, 0, 1, 0, 0, 1, 0, 0, 1, - 1, 0, 0, - 1, 0, 0, - 1, 0, 0]"
    by (simp add: gather_def)
  have g4: "gather [0::int, 0, 1, - 1, 0, 0]
              [0, 0, 0, 1, 1, 1, 2, 2, 2, 3, 3, 3, 4, 4, 4, 5, 5, 5]
            = Inr [0, 0, 0, 0, 0, 0, 1, 1, 1, - 1, - 1, - 1, 0, 0, 0, 0, 0, 0]"
    by (simp add: gather_def)
  have p1: "np_mult [1, 2, 3, 4, 5, 6, 7, 8, 9, 10, 11, 12, 13, 14, 15, 16, 17, 18]
              (map of_int [0, 0, 1, 0, 0, 1, 0, 0, 1, - 1, 0, 0, - 1, 0, 0, - 1, 0, 0])
            = Inr [0, 0, 3, 0, 0, 6, 0, 0, 9, - 10, 0, 0, - 13, 0, 0, - 16, 0, 0]"
    by (simp add: np_mult_def)
  have p2: "np_mult [0, 0, 3, 0, 0, 6, 0, 0, 9, - 10, 0, 0, - 13, 0, 0, - 16, 0, 0]
              (map of_int [0, 0, 0, 0, 0, 0, 1, 1, 1, - 1, - 1, - 1, 0, 0, 0, 0, 0, 0])
            = Inr [0, 0, 0, 0, 0, 0, 0, 0, 9, 10, 0, 0, 0, 0, 0, 0, 0, 0]"
    by (simp add: np_mult_def)
  have k: "coo_matrix [0, 0, 0, 0, 0, 0, 0, 0, 9, 10, 0, 0, 0, 0, 0, 0, 0, 0]
             [0, 0, 0, 0, 0, 0, 0, 0, 0, 0, 0, 0, 0, 0, 0, 0, 0, 0]
             [0, 0, 0, 0, 0, 0, 0, 0, 0, 0, 0, 0, 0, 0, 0, 0, 0, 0] (1, 1)
           = Inr \<lparr>shape = (1, 1),
           triplets =
             zip [0, 0, 0, 0, 0, 0, 0, 0, 0, 0, 0, 0, 0, 0, 0, 0, 0, 0]
               (zip [0, 0, 0, 0, 0, 0, 0, 0, 0, 0, 0, 0, 0, 0, 0, 0, 0, 0]
                  [0, 0, 0, 0, 0, 0, 0, 0, 9, 10, 0, 0, 0, 0, 0, 0, 0, 0])\<rparr>"
    by (simp add: coo_matrix_def)
  show ?thesis
    unfolding assemble_def Let_def assemble_sparse_shared_edge l m c
    by (simp only: prod.case sum.case g1 g2 g3 g4 p1 p2 k ebind_Inr)
qed

text \<open>
  Claim C1. When \<open>assemble\<close> returns a matrix for two spaces with arrays of the right
  shape, the entry at the global test DOF \<open>row\<close> and the global trial DOF \<open>col\<close> is the sum,
  over the active elements (those in both supports, in increasing order, at position \<open>p\<close>
  of the list), the test slots \<open>i\<close> and the trial slots \<open>j\<close> whose local-to-global maps
  give \<open>row\<close> and \<open>col\<close>, of the value the kernel left in the result buffer for that
  element and pair of slots, times the trial multiplier and the test multiplier.
  Triplets with the same row and column are summed.
\<close>

theorem assembled_matrix_entry:
  fixes domain dual_to_range :: space_data
  defines "nt \<equiv> number_of_shape_functions dual_to_range"
    and "ntr \<equiv> number_of_shape_functions domain"
    and "elements \<equiv> filter (\<lambda>el. sp_support domain ! el \<and> sp_support dual_to_range ! el)
                        [0..<number_of_elements (sp_grid domain)]"
  assumes "assemble domain dual_to_range device_kernel trace = (Inr M, trace')"
    and "space_shape_ok domain" and "uint32_exact domain"
    and "space_shape_ok dual_to_range" and "uint32_exact dual_to_range"
  shows "entry M row col =
     (\<Sum>p<length elements. \<Sum>i<nt. \<Sum>j<ntr.
        if local2global dual_to_range ! (elements ! p) ! i = row
           \<and> local2global domain ! (elements ! p) ! j = col
        then device_kernel elements (p * (nt * ntr) + i * ntr + j)
             * of_int (multipliers domain ! (elements ! p) ! j)
             * of_int (multipliers dual_to_range ! (elements ! p) ! i)
        else 0)"
  unfolding nt_def ntr_def elements_def
  using assms(4-8) by (rule assembled_entry_sum)

text \<open>
  The two triangles with the one DOF of their common edge: both triangles contribute to
  the single entry of the matrix, 9 from the first and 10 from the second.
\<close>

theorem assembled_matrix_entry_witness:
  "assemble shared_edge_space shared_edge_space position_kernel [] =
     (Inr \<lparr>shape = (1, 1),
           triplets =
             zip [0, 0, 0, 0, 0, 0, 0, 0, 0, 0, 0, 0, 0, 0, 0, 0, 0, 0]
               (zip [0, 0, 0, 0, 0, 0, 0, 0, 0, 0, 0, 0, 0, 0, 0, 0, 0, 0]
                  [0, 0, 0, 0, 0, 0, 0, 0, 9, 10, 0, 0, 0, 0, 0, 0, 0, 0])\<rparr>,
      [BufferFromArray, BufferFromArray, PushToDevice, BufferFromArray, AllocBuffer 18,
       BufferFromArray, BufferFromArray, BuildKernel, BuildKernel, RunChunkedKernel,
       GetHostCopy])
   \<and> space_shape_ok shared_edge_space \<and> uint32_exact shared_edge_space
   \<and> entry \<lparr>shape = (1, 1),
           triplets =
             zip [0, 0, 0, 0, 0, 0, 0, 0, 0, 0, 0, 0, 0, 0, 0, 0, 0, 0]
               (zip [0, 0, 0, 0, 0, 0, 0, 0, 0, 0, 0, 0, 0, 0, 0, 0, 0, 0]
                  [0, 0, 0, 0, 0, 0, 0, 0, 9, 10, 0, 0, 0, 0, 0, 0, 0, 0])\<rparr> 0 0 = 19"
proof -
  have f: "filter (\<lambda>el. sp_support shared_edge_space ! el \<and> sp_support shared_edge_space ! el)
             [0..<number_of_elements (sp_grid shared_edge_space)] = [0, 1]"
    by (simp add: shared_edge_space_def two_triangles_def upt_rec)
  have n: "number_of_shape_functions shared_edge_space = 3"
    and l: "local2global shared_edge_space = [[0, 0, 0], [0, 0, 0]]"
    and m: "multipliers shared_edge_space = [[0, 0, 1], [- 1, 0, 0]]"
    by (simp_all add: shared_edge_space_def)
  have three: "{..<3::nat} = {0, 1, 2}" and two: "{..<2::nat} = {0, 1}"
    by auto
  have "(\<Sum>p<length [0::nat, 1]. \<Sum>i<3. \<Sum>j<3.
          if [[0::nat, 0, 0], [0, 0, 0]] ! ([0, 1] ! p) ! i = 0
             \<and> [[0::nat, 0, 0], [0, 0, 0]] ! ([0, 1] ! p) ! j = 0
          then position_kernel [0, 1] (p * (3 * 3) + i * 3 + j)
               * of_int ([[0, 0, 1], [- 1, 0, 0]] ! ([0, 1] ! p) ! j)
               * of_int ([[0, 0, 1], [- 1, 0, 0]] ! ([0, 1] ! p) ! i)
          else 0) = 19"
    by (simp add: three two position_kernel_def)
  with assembled_matrix_entry [OF assemble_shared_edge shared_edge_space_ok
      shared_edge_space_ok, of 0 0, unfolded f n l m]
  show ?thesis
    using assemble_shared_edge shared_edge_space_ok by simp
qed

section \<open>The steps of the DOF assignment, case by case\<close>

lemma slot_step_disj:
  assumes run: "slot_step g support ibd el (s, dm) l = Inr (s', dm')"
  shows "\<exists>other.
    l < length (element_edges g) \<and> el < length (element_edges g ! l)
    \<and> slot_edge g el l < length (edge_neighbors g)
    \<and> slot_other g support el l = Inr other
    \<and> el < length (local_multipliers s) \<and> l < length (local_multipliers s ! el)
    \<and> ((other = - 1 \<and> \<not> ibd \<and> dm' = dm \<and>
        s' = s\<lparr>local_multipliers := (local_multipliers s)[el := (local_multipliers s ! el)[l := 0]]\<rparr>)
     \<or> (other = - 1 \<and> ibd \<and> l < length dm \<and> dm' = dm[l := count s] \<and>
        s' = s\<lparr>local_multipliers := (local_multipliers s)[el := (local_multipliers s ! el)[l := 1]],
               count := count s + 1\<rparr>)
     \<or> (other \<noteq> - 1 \<and> slot_edge g el l < length (edge_dofs s)
        \<and> edge_dofs s ! slot_edge g el l = - 1 \<and>
        l < length dm \<and> dm' = dm[l := count s] \<and>
        s' = s\<lparr>local_multipliers := (local_multipliers s)[el := (local_multipliers s ! el)
                    [l := (if el = min_list (slot_neighbors g el l) then 1 else - 1)]],
               edge_dofs := (edge_dofs s)[slot_edge g el l := count s],
               count := count s + 1\<rparr>)
     \<or> (other \<noteq> - 1 \<and> slot_edge g el l < length (edge_dofs s)
        \<and> edge_dofs s ! slot_edge g el l \<noteq> - 1 \<and>
        l < length dm \<and> dm' = dm[l := edge_dofs s ! slot_edge g el l] \<and>
        s' = s\<lparr>local_multipliers := (local_multipliers s)[el := (local_multipliers s ! el)
                    [l := (if el = min_list (slot_neighbors g el l) then 1 else - 1)]]\<rparr>))"
proof -
  obtain e where e: "lookup2 (element_edges g) l el = Inr e"
    using run by (cases "lookup2 (element_edges g) l el") (simp_all add: slot_step_def)
  obtain nbrs where nbrs: "lookup (edge_neighbors g) e = Inr nbrs"
    using run e by (cases "lookup (edge_neighbors g) e") (simp_all add: slot_step_def)
  obtain other where other: "find_other support el nbrs = Inr other"
    using run e nbrs by (cases "find_other support el nbrs") (simp_all add: slot_step_def)
  let ?v = "if other = - 1 then (if ibd then 1 else 0)
            else (if el = min_list nbrs then 1 else - 1 :: int)"
  obtain m where m: "store2 (local_multipliers s) el l ?v = Inr m"
    using run e nbrs other
    by (cases "store2 (local_multipliers s) el l ?v")
       (simp_all add: slot_step_def split: if_splits)
  from e have e': "l < length (element_edges g)" "el < length (element_edges g ! l)"
    "e = slot_edge g el l"
    by (simp_all add: lookup2_Inr_iff slot_edge_def)
  from nbrs have n': "e < length (edge_neighbors g)" "nbrs = slot_neighbors g el l"
    by (simp_all add: lookup_Inr_iff slot_neighbors_def e'(3))
  from m have m': "el < length (local_multipliers s)" "l < length (local_multipliers s ! el)"
    "m = (local_multipliers s)[el := (local_multipliers s ! el)[l := ?v]]"
    by (simp_all add: store2_Inr_iff)
  have o': "slot_other g support el l = Inr other"
    using other n'(2) by (simp add: slot_other_def)
  have rest: "(other = - 1 \<and> \<not> ibd \<and> dm' = dm \<and>
        s' = s\<lparr>local_multipliers := (local_multipliers s)[el := (local_multipliers s ! el)[l := 0]]\<rparr>)
     \<or> (other = - 1 \<and> ibd \<and> l < length dm \<and> dm' = dm[l := count s] \<and>
        s' = s\<lparr>local_multipliers := (local_multipliers s)[el := (local_multipliers s ! el)[l := 1]],
               count := count s + 1\<rparr>)
     \<or> (other \<noteq> - 1 \<and> e < length (edge_dofs s) \<and> edge_dofs s ! e = - 1 \<and>
        l < length dm \<and> dm' = dm[l := count s] \<and>
        s' = s\<lparr>local_multipliers := (local_multipliers s)[el := (local_multipliers s ! el)
                    [l := (if el = min_list nbrs then 1 else - 1)]],
               edge_dofs := (edge_dofs s)[e := count s], count := count s + 1\<rparr>)
     \<or> (other \<noteq> - 1 \<and> e < length (edge_dofs s) \<and> edge_dofs s ! e \<noteq> - 1 \<and>
        l < length dm \<and> dm' = dm[l := edge_dofs s ! e] \<and>
        s' = s\<lparr>local_multipliers := (local_multipliers s)[el := (local_multipliers s ! el)
                    [l := (if el = min_list nbrs then 1 else - 1)]]\<rparr>)"
  proof (cases "other = - 1")
    case True
    show ?thesis
    proof (cases ibd)
      case False
      with True run e nbrs other m m'(3) show ?thesis
        by (simp add: slot_step_def)
    next
      case ibd: True
      with True run e nbrs other m m'(3) show ?thesis
        by (auto simp: slot_step_def ebind_Inr_iff store_Inr_iff)
    qed
  next
    case False
    obtain ed where ed: "lookup (edge_dofs s) e = Inr ed"
      using run e nbrs other m False
      by (cases "lookup (edge_dofs s) e") (simp_all add: slot_step_def)
    then have ed': "e < length (edge_dofs s)" "ed = edge_dofs s ! e"
      by (simp_all add: lookup_Inr_iff)
    show ?thesis
    proof (cases "ed = - 1")
      case True
      with False run e nbrs other m m'(3) ed ed' show ?thesis
        by (auto simp: slot_step_def store_Inr_iff lookup_Inr_iff store_def lookup_def
            split: if_splits)
    next
      case ne: False
      with False run e nbrs other m m'(3) ed ed' show ?thesis
        by (auto simp: slot_step_def store_Inr_iff lookup_Inr_iff store_def lookup_def
            split: if_splits)
    qed
  qed
  show ?thesis
    using e'(1,2) n'(1) o' m'(1,2) rest unfolding e'(3) n'(2) by blast
qed

lemma slot_step_cases [consumes 1, case_names boundary_skip boundary_dof new_edge old_edge]:
  assumes run: "slot_step g support ibd el (s, dm) l = Inr (s', dm')"
  obtains
    (boundary_skip)
      "l < length (element_edges g)" "el < length (element_edges g ! l)"
      "slot_edge g el l < length (edge_neighbors g)"
      "el < length (local_multipliers s)" "l < length (local_multipliers s ! el)"
      "slot_other g support el l = Inr (- 1)" "\<not> ibd" "dm' = dm"
      "s' = s\<lparr>local_multipliers :=
                (local_multipliers s)[el := (local_multipliers s ! el)[l := 0]]\<rparr>"
  | (boundary_dof)
      "l < length (element_edges g)" "el < length (element_edges g ! l)"
      "slot_edge g el l < length (edge_neighbors g)"
      "el < length (local_multipliers s)" "l < length (local_multipliers s ! el)"
      "slot_other g support el l = Inr (- 1)" "ibd" "l < length dm" "dm' = dm[l := count s]"
      "s' = s\<lparr>local_multipliers :=
                (local_multipliers s)[el := (local_multipliers s ! el)[l := 1]],
              count := count s + 1\<rparr>"
  | (new_edge) other where
      "l < length (element_edges g)" "el < length (element_edges g ! l)"
      "slot_edge g el l < length (edge_neighbors g)"
      "el < length (local_multipliers s)" "l < length (local_multipliers s ! el)"
      "slot_other g support el l = Inr other" "other \<noteq> - 1"
      "slot_edge g el l < length (edge_dofs s)" "edge_dofs s ! slot_edge g el l = - 1"
      "l < length dm" "dm' = dm[l := count s]"
      "s' = s\<lparr>local_multipliers := (local_multipliers s)[el := (local_multipliers s ! el)
                    [l := (if el = min_list (slot_neighbors g el l) then 1 else - 1)]],
               edge_dofs := (edge_dofs s)[slot_edge g el l := count s],
               count := count s + 1\<rparr>"
  | (old_edge) other where
      "l < length (element_edges g)" "el < length (element_edges g ! l)"
      "slot_edge g el l < length (edge_neighbors g)"
      "el < length (local_multipliers s)" "l < length (local_multipliers s ! el)"
      "slot_other g support el l = Inr other" "other \<noteq> - 1"
      "slot_edge g el l < length (edge_dofs s)" "edge_dofs s ! slot_edge g el l \<noteq> - 1"
      "l < length dm" "dm' = dm[l := edge_dofs s ! slot_edge g el l]"
      "s' = s\<lparr>local_multipliers := (local_multipliers s)[el := (local_multipliers s ! el)
                    [l := (if el = min_list (slot_neighbors g el l) then 1 else - 1)]]\<rparr>"
  using slot_step_disj [OF run] by (elim exE conjE disjE) blast+

lemma fill_zero_slots:
  assumes "efold (\<lambda>d i. store d i v) idx dm = Inr dm'"
  shows "length dm' = length dm
         \<and> (\<forall>i<length dm. dm' ! i = (if i \<in> set idx then v else dm ! i))"
  using assms
proof (induction idx arbitrary: dm)
  case Nil
  then show ?case by simp
next
  case (Cons i idx)
  from Cons.prems obtain d1 where d1: "store dm i v = Inr d1"
    and rest: "efold (\<lambda>d i. store d i v) idx d1 = Inr dm'"
    by (auto simp: ebind_Inr_iff)
  from d1 have i: "i < length dm" and d1': "d1 = dm[i := v]"
    by (simp_all add: store_Inr_iff)
  from Cons.IH [OF rest] have "length dm' = length d1"
    and "\<forall>k<length d1. dm' ! k = (if k \<in> set idx then v else d1 ! k)"
    by simp_all
  then show ?case
    using i d1' by (auto simp: nth_list_update)
qed

lemma finish_element_cases [consumes 1, case_names drop keep]:
  assumes run: "finish_element el (s, dm) = Inr st'"
  obtains (drop) "\<forall>d \<in> set dm. d = - 1"
      "el < length (local_multipliers s)" "el < length (local2global_map s)"
      "st' = s\<lparr>delete_from_support := delete_from_support s @ [el],
               local_multipliers := (local_multipliers s)[el := [0, 0, 0]],
               local2global_map := (local2global_map s)[el := [0, 0, 0]]\<rparr>"
  | (keep) dm' where "\<not> (\<forall>d \<in> set dm. d = - 1)"
      "el < length (local_multipliers s)" "el < length (local2global_map s)"
      "flatnonzero (\<lambda>x. x \<noteq> 0) (local_multipliers s ! el) \<noteq> []"
      "min_list (flatnonzero (\<lambda>x. x \<noteq> 0) (local_multipliers s ! el)) < length dm"
      "length dm' = length dm"
      "\<forall>i<length dm. dm' ! i =
         (if i \<in> set (flatnonzero (\<lambda>x. x = 0) (local_multipliers s ! el))
          then dm ! min_list (flatnonzero (\<lambda>x. x \<noteq> 0) (local_multipliers s ! el))
          else dm ! i)"
      "st' = s\<lparr>local2global_map := (local2global_map s)[el := map to_uint32 dm']\<rparr>"
proof (cases "\<forall>d \<in> set dm. d = - 1")
  case True
  with run have "el < length (local_multipliers s)" "el < length (local2global_map s)"
    "st' = s\<lparr>delete_from_support := delete_from_support s @ [el],
               local_multipliers := (local_multipliers s)[el := [0, 0, 0]],
               local2global_map := (local2global_map s)[el := [0, 0, 0]]\<rparr>"
    by (auto simp: finish_element_def ebind_Inr_iff store_Inr_iff)
  with True show thesis by (intro drop)
next
  case False
  let ?row = "local_multipliers s ! el"
  let ?nz = "flatnonzero (\<lambda>x. x \<noteq> 0) ?row"
  let ?z = "flatnonzero (\<lambda>x. x = 0) ?row"
  from run False have el: "el < length (local_multipliers s)"
    by (cases "lookup (local_multipliers s) el")
       (simp_all add: finish_element_def lookup_Inr_iff)
  then have lk: "lookup (local_multipliers s) el = Inr ?row"
    by (simp add: lookup_def)
  have nz: "?nz \<noteq> []"
    using run False lk by (auto simp: finish_element_def Let_def split: if_splits)
  from run False lk nz obtain v where v: "lookup dm (min_list ?nz) = Inr v"
    by (cases "lookup dm (min_list ?nz)") (simp_all add: finish_element_def Let_def)
  then have first: "min_list ?nz < length dm" and v': "v = dm ! min_list ?nz"
    by (simp_all add: lookup_Inr_iff)
  from run False lk nz v obtain dm' where
    fill: "efold (\<lambda>d i. store d i v) ?z dm = Inr dm'"
    by (cases "efold (\<lambda>d i. store d i v) ?z dm") (simp_all add: finish_element_def Let_def)
  from run False lk nz v fill have
    st: "el < length (local2global_map s)"
       "st' = s\<lparr>local2global_map := (local2global_map s)[el := map to_uint32 dm']\<rparr>"
    by (auto simp: finish_element_def Let_def ebind_Inr_iff store_Inr_iff)
  from fill_zero_slots [OF fill] have len: "length dm' = length dm"
    and vals: "\<forall>i<length dm. dm' ! i = (if i \<in> set ?z then dm ! min_list ?nz else dm ! i)"
    unfolding v' by simp_all
  show thesis
    by (rule keep [OF False el st(1) nz first len vals st(2)])
qed

text \<open>The invariant rule of the two nested loops of the assignment.\<close>

lemma assign_dofs_invariant:
  assumes run: "assign_dofs g support ibd = Inr st"
    and init: "I [] (initial_state g)"
    and enter: "\<And>done el s. I done s \<Longrightarrow> el \<notin> set done \<Longrightarrow> el < length support
        \<Longrightarrow> support ! el \<Longrightarrow> J done el [] (s, [- 1, - 1, - 1])"
    and slot: "\<And>done el ks l s dm s' dm'. J done el ks (s, dm) \<Longrightarrow> l \<notin> set ks \<Longrightarrow> l < 3
        \<Longrightarrow> slot_step g support ibd el (s, dm) l = Inr (s', dm')
        \<Longrightarrow> J done el (ks @ [l]) (s', dm')"
    and finish: "\<And>done el s dm s'. J done el [0, 1, 2] (s, dm)
        \<Longrightarrow> finish_element el (s, dm) = Inr s' \<Longrightarrow> I (done @ [el]) s'"
  shows "I (flatnonzero (\<lambda>b. b) support) st"
proof -
  let ?els = "flatnonzero (\<lambda>b. b) support"
  have dist: "distinct ?els" by (simp add: flatnonzero_def)
  have mem: "el < length support \<and> support ! el" if "el \<in> set ?els" for el
    using that by (simp add: flatnonzero_def)
  show ?thesis
  proof (rule efold_invariant [OF run [unfolded assign_dofs_def], where I = I])
    show "I [] (initial_state g)" by (rule init)
  next
    fix ys x zs t t'
    assume split: "?els = ys @ x # zs" and I: "I ys t"
      and step: "element_step g support ibd t x = Inr t'"
    from split dist have fresh: "x \<notin> set ys"
      by (metis distinct_append distinct.simps(2) disjoint_iff list.set_intros(1))
    from split have "x \<in> set ?els" by simp
    then have x: "x < length support" "support ! x" using mem by simp_all
    from step obtain sd where
      inner: "efold (slot_step g support ibd x) [0, 1, 2] (t, [- 1, - 1, - 1]) = Inr sd"
      and fin: "finish_element x sd = Inr t'"
      by (auto simp: element_step_def ebind_Inr_iff)
    have "J ys x [0, 1, 2] sd"
    proof (rule efold_invariant [OF inner, where I = "J ys x"])
      show "J ys x [] (t, [- 1, - 1, - 1])"
        using I fresh x by (rule enter)
    next
      fix ks l ls u u'
      assume sp: "[0, 1, 2] = ks @ l # ls" and J: "J ys x ks u"
        and st: "slot_step g support ibd x u l = Inr u'"
      have "distinct (ks @ l # ls)" unfolding sp [symmetric] by simp
      then have l1: "l \<notin> set ks" by simp
      have "l \<in> set [0::nat, 1, 2]" unfolding sp by simp
      then have l2: "l < 3" by auto
      obtain s dm where u: "u = (s, dm)" by (cases u)
      obtain s' dm' where u': "u' = (s', dm')" by (cases u')
      show "J ys x (ks @ [l]) u'"
        using slot [of ys x ks s dm l s' dm'] J l1 l2 st unfolding u u' by simp
    qed
    moreover obtain s dm where sd: "sd = (s, dm)" by (cases sd)
    ultimately show "I (ys @ [x]) t'"
      using finish [of ys x s dm t'] fin by simp
  qed
qed

section \<open>Shapes, ranges and frames\<close>

lemma set_update_rows:
  assumes "\<forall>row \<in> set a. length row = k" "length r = k"
  shows "\<forall>row \<in> set (a[i := r]). length row = k"
  using assms set_update_subset_insert [of a i r] by auto

lemma set_update_range:
  fixes c :: int
  assumes "\<forall>d \<in> set xs. d = - 1 \<or> (0 \<le> d \<and> d < c)" "c \<le> c'" "0 \<le> v" "v < c'"
  shows "\<forall>d \<in> set (xs[i := v]). d = - 1 \<or> (0 \<le> d \<and> d < c')"
proof
  fix d assume "d \<in> set (xs[i := v])"
  then have "d = v \<or> d \<in> set xs"
    using set_update_subset_insert [of xs i v] by auto
  then show "d = - 1 \<or> (0 \<le> d \<and> d < c')"
    using assms by auto
qed

lemma slot_step_state_ok:
  assumes run: "slot_step g support ibd el (s, dm) l = Inr (s', dm')"
    and ok: "state_ok g s"
  shows "state_ok g s'"
  using run
proof (cases rule: slot_step_cases)
  case boundary_skip
  have "\<forall>row \<in> set ((local_multipliers s)[el := (local_multipliers s ! el)[l := 0]]).
          length row = 3"
    using ok boundary_skip(4) by (intro set_update_rows) (simp_all add: state_ok_def)
  then show ?thesis using ok boundary_skip(9) by (simp add: state_ok_def)
next
  case boundary_dof
  have "\<forall>row \<in> set ((local_multipliers s)[el := (local_multipliers s ! el)[l := 1]]).
          length row = 3"
    using ok boundary_dof(4) by (intro set_update_rows) (simp_all add: state_ok_def)
  moreover have "\<forall>d \<in> set (edge_dofs s). d = - 1 \<or> (0 \<le> d \<and> d < count s + 1)"
    using ok by (auto simp: state_ok_def)
  ultimately show ?thesis using ok boundary_dof(10) by (simp add: state_ok_def)
next
  case (new_edge other)
  have "\<forall>row \<in> set ((local_multipliers s)[el := (local_multipliers s ! el)
          [l := (if el = min_list (slot_neighbors g el l) then 1 else - 1)]]). length row = 3"
    using ok new_edge(4) by (intro set_update_rows) (simp_all add: state_ok_def)
  moreover have "\<forall>d \<in> set ((edge_dofs s)[slot_edge g el l := count s]).
                   d = - 1 \<or> (0 \<le> d \<and> d < count s + 1)"
    using ok by (intro set_update_range [where c = "count s"]) (simp_all add: state_ok_def)
  ultimately show ?thesis using ok new_edge(12) by (simp add: state_ok_def)
next
  case (old_edge other)
  have "\<forall>row \<in> set ((local_multipliers s)[el := (local_multipliers s ! el)
          [l := (if el = min_list (slot_neighbors g el l) then 1 else - 1)]]). length row = 3"
    using ok old_edge(4) by (intro set_update_rows) (simp_all add: state_ok_def)
  then show ?thesis using ok old_edge(12) by (simp add: state_ok_def)
qed

lemma slot_step_count_mono:
  assumes "slot_step g support ibd el (s, dm) l = Inr (s', dm')"
  shows "count s \<le> count s'"
  using assms by (cases rule: slot_step_cases) simp_all

lemma slot_step_dofmap_ok:
  assumes run: "slot_step g support ibd el (s, dm) l = Inr (s', dm')"
    and ok: "state_ok g s" and dm: "dofmap_ok s dm"
  shows "dofmap_ok s' dm'"
proof -
  have mono: "count s \<le> count s'" using run by (rule slot_step_count_mono)
  have r: "\<forall>d \<in> set dm. d = - 1 \<or> (0 \<le> d \<and> d < count s)"
    using dm by (simp add: dofmap_ok_def)
  have len: "length dm = 3" using dm by (simp add: dofmap_ok_def)
  have c0: "0 \<le> count s" using ok by (simp add: state_ok_def)
  from run show ?thesis
  proof (cases rule: slot_step_cases)
    case boundary_skip
    then show ?thesis using dm by (simp add: dofmap_ok_def)
  next
    case boundary_dof
    have "\<forall>d \<in> set (dm[l := count s]). d = - 1 \<or> (0 \<le> d \<and> d < count s + 1)"
      using r c0 by (intro set_update_range [where c = "count s"]) simp_all
    then show ?thesis using boundary_dof(9,10) len by (simp add: dofmap_ok_def)
  next
    case (new_edge other)
    have "\<forall>d \<in> set (dm[l := count s]). d = - 1 \<or> (0 \<le> d \<and> d < count s + 1)"
      using r c0 by (intro set_update_range [where c = "count s"]) simp_all
    then show ?thesis using new_edge(11,12) len by (simp add: dofmap_ok_def)
  next
    case (old_edge other)
    have "edge_dofs s ! slot_edge g el l \<in> set (edge_dofs s)"
      using old_edge(8) by simp
    with ok old_edge(9) have "0 \<le> edge_dofs s ! slot_edge g el l"
      "edge_dofs s ! slot_edge g el l < count s"
      by (auto simp: state_ok_def)
    then have "\<forall>d \<in> set (dm[l := edge_dofs s ! slot_edge g el l]).
                 d = - 1 \<or> (0 \<le> d \<and> d < count s)"
      using r by (intro set_update_range [where c = "count s"]) simp_all
    then show ?thesis using old_edge(11,12) len by (simp add: dofmap_ok_def)
  qed
qed

lemma slot_step_frame:
  assumes run: "slot_step g support ibd el (s, dm) l = Inr (s', dm')"
  shows "frame el s s'"
    and "local2global_map s' = local2global_map s"
    and "delete_from_support s' = delete_from_support s"
    and "\<forall>k. k \<noteq> l \<longrightarrow> local_multipliers s' ! el ! k = local_multipliers s ! el ! k"
    and "\<forall>k. k \<noteq> l \<longrightarrow> dm' ! k = dm ! k"
proof -
  show "frame el s s'"
    using run by (cases rule: slot_step_cases) (auto simp: frame_def nth_list_update)
  show "local2global_map s' = local2global_map s"
    using run by (cases rule: slot_step_cases) simp_all
  show "delete_from_support s' = delete_from_support s"
    using run by (cases rule: slot_step_cases) simp_all
  show "\<forall>k. k \<noteq> l \<longrightarrow> local_multipliers s' ! el ! k = local_multipliers s ! el ! k"
    using run by (cases rule: slot_step_cases) simp_all
  show "\<forall>k. k \<noteq> l \<longrightarrow> dm' ! k = dm ! k"
    using run by (cases rule: slot_step_cases) simp_all
qed

lemma finish_element_frame:
  assumes run: "finish_element el (s, dm) = Inr s'"
  shows "frame el s s'" and "edge_dofs s' = edge_dofs s" and "count s' = count s"
proof -
  show "frame el s s'"
    using run by (cases rule: finish_element_cases) (auto simp: frame_def nth_list_update)
  show "edge_dofs s' = edge_dofs s"
    using run by (cases rule: finish_element_cases) simp_all
  show "count s' = count s"
    using run by (cases rule: finish_element_cases) simp_all
qed

lemma finish_element_state_ok:
  assumes run: "finish_element el (s, dm) = Inr s'"
    and ok: "state_ok g s" and dm: "dofmap_ok s dm"
  shows "state_ok g s'"
  using run
proof (cases rule: finish_element_cases)
  case drop
  have "\<forall>row \<in> set ((local_multipliers s)[el := [0, 0, 0]]). length row = 3"
    using ok by (intro set_update_rows) (simp_all add: state_ok_def)
  moreover have "\<forall>row \<in> set ((local2global_map s)[el := [0, 0, 0]]). length row = 3"
    using ok by (intro set_update_rows) (simp_all add: state_ok_def)
  ultimately show ?thesis using ok drop(4) by (simp add: state_ok_def)
next
  case (keep dm')
  have "length (map to_uint32 dm') = 3" using keep(6) dm by (simp add: dofmap_ok_def)
  then have "\<forall>row \<in> set ((local2global_map s)[el := map to_uint32 dm']). length row = 3"
    using ok by (intro set_update_rows) (simp_all add: state_ok_def)
  then show ?thesis using ok keep(8) by (simp add: state_ok_def)
qed

lemma initial_state_ok: "state_ok g (initial_state g)"
  by (simp add: state_ok_def initial_state_def)

section \<open>The rows of the visited elements\<close>

lemma flatnonzero_mem: "i \<in> set (flatnonzero p xs) \<longleftrightarrow> i < length xs \<and> p (xs ! i)"
  by (auto simp: flatnonzero_def)

lemma min_list_mem:
  fixes xs :: "nat list"
  shows "xs \<noteq> [] \<Longrightarrow> min_list xs \<in> set xs"
  by (simp add: min_list_Min)

lemma slot_rec_frame:
  assumes "slot_rec g support ibd el l m d (edge_dofs s)" and "frame x s s'"
  shows "slot_rec g support ibd el l m d (edge_dofs s')"
proof -
  from assms(1) obtain other where
    base: "l < length (element_edges g)" "el < length (element_edges g ! l)"
      "slot_edge g el l < length (edge_neighbors g)"
    and o: "slot_other g support el l = Inr other"
    and c: "if other = - 1 then (if ibd then m = 1 \<and> 0 \<le> d else m = 0 \<and> d = - 1)
            else m = (if el = min_list (slot_neighbors g el l) then 1 else - 1)
                 \<and> slot_edge g el l < length (edge_dofs s)
                 \<and> edge_dofs s ! slot_edge g el l = d \<and> 0 \<le> d"
    unfolding slot_rec_def by blast
  have "if other = - 1 then (if ibd then m = 1 \<and> 0 \<le> d else m = 0 \<and> d = - 1)
            else m = (if el = min_list (slot_neighbors g el l) then 1 else - 1)
                 \<and> slot_edge g el l < length (edge_dofs s')
                 \<and> edge_dofs s' ! slot_edge g el l = d \<and> 0 \<le> d"
  proof (cases "other = - 1")
    case True
    with c show ?thesis by simp
  next
    case False
    with c have e: "slot_edge g el l < length (edge_dofs s)"
      "edge_dofs s ! slot_edge g el l = d" "0 \<le> d"
      and m: "m = (if el = min_list (slot_neighbors g el l) then 1 else - 1)"
      by simp_all
    from e have "edge_dofs s ! slot_edge g el l \<noteq> - 1" by simp
    with assms(2) e(1) have "edge_dofs s' ! slot_edge g el l = edge_dofs s ! slot_edge g el l"
      "length (edge_dofs s') = length (edge_dofs s)"
      by (simp_all add: frame_def)
    with False e m show ?thesis by simp
  qed
  with base o show ?thesis unfolding slot_rec_def by blast
qed

lemma row_ok_frame:
  assumes ok: "row_ok g support ibd s el'" and fr: "frame el s s'" and ne: "el' \<noteq> el"
  shows "row_ok g support ibd s' el'"
proof -
  have m: "local_multipliers s' ! el' = local_multipliers s ! el'"
    and l: "local2global_map s' ! el' = local2global_map s ! el'"
    and c: "count s \<le> count s'"
    and d: "el' \<in> set (delete_from_support s') \<longleftrightarrow> el' \<in> set (delete_from_support s)"
    using fr ne by (simp_all add: frame_def)
  have "slot_done g support ibd s' el' k" if "k < 3" for k
  proof -
    from ok that obtain dd where
      r: "slot_rec g support ibd el' k (local_multipliers s ! el' ! k) dd (edge_dofs s)"
      and v: "local_multipliers s ! el' ! k \<noteq> 0 \<longrightarrow>
               local2global_map s ! el' ! k = to_uint32 dd \<and> dd < count s"
      unfolding row_ok_def slot_done_def by blast
    from r fr have "slot_rec g support ibd el' k (local_multipliers s ! el' ! k) dd (edge_dofs s')"
      by (rule slot_rec_frame)
    with v c show ?thesis
      unfolding slot_done_def m l by force
  qed
  moreover have "row_fill s' el'"
    using ok unfolding row_ok_def row_fill_def m l d by simp
  ultimately show ?thesis
    using ok by (simp add: row_ok_def)
qed

lemma inner_inv_enter:
  assumes "outer_inv g support ibd done s" and "el \<notin> set done"
  shows "inner_inv g support ibd done el [] (s, [- 1, - 1, - 1])"
proof -
  have "dofmap_ok s [- 1, - 1, - 1]" by (simp add: dofmap_ok_def)
  moreover have "\<forall>l<3. [- 1, - 1, - 1 :: int] ! l = - 1"
    by (auto simp: nth_Cons split: nat.splits)
  ultimately show ?thesis
    using assms by (simp add: inner_inv_def outer_inv_def)
qed

lemma inner_inv_slot:
  assumes inv: "inner_inv g support ibd done el ks (s, dm)"
    and fresh: "l \<notin> set ks" and l3: "l < 3"
    and run: "slot_step g support ibd el (s, dm) l = Inr (s', dm')"
  shows "inner_inv g support ibd done el (ks @ [l]) (s', dm')"
proof -
  from inv have ok: "state_ok g s" and dmok: "dofmap_ok s dm"
    and rows: "\<forall>el' \<in> set done. row_ok g support ibd s el'"
    and zero: "\<forall>el'<number_of_elements g. el' \<notin> set done \<longrightarrow> el' \<noteq> el \<longrightarrow>
              local_multipliers s ! el' = [0, 0, 0] \<and> local2global_map s ! el' = [0, 0, 0]"
    and del: "set (delete_from_support s) \<subseteq> set done"
    and eld: "el \<notin> set done"
    and unset: "\<forall>k<3. k \<notin> set ks \<longrightarrow> dm ! k = - 1"
    and recs: "\<forall>k \<in> set ks. k < 3 \<and>
              slot_rec g support ibd el k (local_multipliers s ! el ! k) (dm ! k) (edge_dofs s)"
    by (simp_all add: inner_inv_def)
  note fr = slot_step_frame [OF run]
  have ok': "state_ok g s'" using run ok by (rule slot_step_state_ok)
  have dmok': "dofmap_ok s' dm'" using run ok dmok by (rule slot_step_dofmap_ok)
  have rows': "\<forall>el' \<in> set done. row_ok g support ibd s' el'"
    using rows fr(1) eld by (auto intro: row_ok_frame)
  have zero': "\<forall>el'<number_of_elements g. el' \<notin> set done \<longrightarrow> el' \<noteq> el \<longrightarrow>
              local_multipliers s' ! el' = [0, 0, 0] \<and> local2global_map s' ! el' = [0, 0, 0]"
    using zero fr(1) by (simp add: frame_def)
  have del': "set (delete_from_support s') \<subseteq> set done"
    using del fr(3) by simp
  have unset': "\<forall>k<3. k \<notin> set (ks @ [l]) \<longrightarrow> dm' ! k = - 1"
    using unset fr(5) by simp
  have old: "slot_rec g support ibd el k (local_multipliers s' ! el ! k) (dm' ! k) (edge_dofs s')"
    if "k \<in> set ks" for k
  proof -
    from that fresh have ne: "k \<noteq> l" by auto
    from recs that have
      "slot_rec g support ibd el k (local_multipliers s ! el ! k) (dm ! k) (edge_dofs s)"
      by simp
    then have "slot_rec g support ibd el k (local_multipliers s ! el ! k) (dm ! k) (edge_dofs s')"
      using fr(1) by (rule slot_rec_frame)
    then show ?thesis using fr(4,5) ne by simp
  qed
  have dml: "dm ! l = - 1" using unset fresh l3 by simp
  have c0: "0 \<le> count s" using ok by (simp add: state_ok_def)
  have new: "slot_rec g support ibd el l (local_multipliers s' ! el ! l) (dm' ! l) (edge_dofs s')"
    using run
  proof (cases rule: slot_step_cases)
    case boundary_skip
    then show ?thesis using dml by (simp add: slot_rec_def)
  next
    case boundary_dof
    then show ?thesis using c0 by (simp add: slot_rec_def)
  next
    case (new_edge other)
    then show ?thesis using c0 by (simp add: slot_rec_def)
  next
    case (old_edge other)
    have "edge_dofs s ! slot_edge g el l \<in> set (edge_dofs s)"
      using old_edge(8) by simp
    with ok old_edge(9) have "0 \<le> edge_dofs s ! slot_edge g el l"
      by (auto simp: state_ok_def)
    with old_edge show ?thesis by (simp add: slot_rec_def)
  qed
  have recs': "\<forall>k \<in> set (ks @ [l]). k < 3 \<and>
      slot_rec g support ibd el k (local_multipliers s' ! el ! k) (dm' ! k) (edge_dofs s')"
    using old new recs l3 by auto
  show ?thesis
    unfolding inner_inv_def prod.case
    using ok' dmok' rows' zero' del' eld unset' recs' by blast
qed

lemma less_3_cases: "k < 3 \<Longrightarrow> k = 0 \<or> k = 1 \<or> k = (2::nat)"
  by arith

lemma nth_zero_row: "k < 3 \<Longrightarrow> [0, 0, 0 :: int] ! k = 0"
  by (auto dest: less_3_cases)

lemma set_012: "k \<in> set [0, 1, 2 :: nat] \<longleftrightarrow> k < 3"
  by auto

lemma slot_rec_sign:
  assumes "slot_rec g support ibd el l m d eds"
  shows "m = 0 \<longleftrightarrow> d = - 1" and "m = - 1 \<or> m = 0 \<or> m = 1" and "d = - 1 \<or> 0 \<le> d"
  using assms by (auto simp: slot_rec_def split: if_splits)

lemma slot_rec_same_edges:
  "edge_dofs s' = edge_dofs s \<Longrightarrow> slot_rec g support ibd el l m d (edge_dofs s)
   \<Longrightarrow> slot_rec g support ibd el l m d (edge_dofs s')"
  by simp

lemma outer_inv_finish:
  assumes inv: "inner_inv g support ibd done el [0, 1, 2] (s, dm)"
    and run: "finish_element el (s, dm) = Inr s'"
  shows "outer_inv g support ibd (done @ [el]) s'"
proof -
  from inv have ok: "state_ok g s" and dmok: "dofmap_ok s dm"
    and rows: "\<forall>el' \<in> set done. row_ok g support ibd s el'"
    and zero: "\<forall>el'<number_of_elements g. el' \<notin> set done \<longrightarrow> el' \<noteq> el \<longrightarrow>
              local_multipliers s ! el' = [0, 0, 0] \<and> local2global_map s ! el' = [0, 0, 0]"
    and del: "set (delete_from_support s) \<subseteq> set done"
    and eld: "el \<notin> set done"
    and recs: "\<forall>k \<in> set [0, 1, 2]. k < 3 \<and>
              slot_rec g support ibd el k (local_multipliers s ! el ! k) (dm ! k) (edge_dofs s)"
    by (simp_all add: inner_inv_def)
  have R: "slot_rec g support ibd el k (local_multipliers s ! el ! k) (dm ! k) (edge_dofs s)"
    if "k < 3" for k
    using recs that set_012 by blast
  note fr = finish_element_frame [OF run]
  have ok': "state_ok g s'" using run ok dmok by (rule finish_element_state_ok)
  have rows': "\<forall>el' \<in> set done. row_ok g support ibd s' el'"
    using rows fr(1) eld by (auto intro: row_ok_frame)
  have zero': "\<forall>el'<number_of_elements g. el' \<notin> set (done @ [el]) \<longrightarrow>
              local_multipliers s' ! el' = [0, 0, 0] \<and> local2global_map s' ! el' = [0, 0, 0]"
    using zero fr(1) by (simp add: frame_def)
  have len: "length dm = 3" using dmok by (simp add: dofmap_ok_def)
  have lm: "length (local_multipliers s) = number_of_elements g"
    and ll: "length (local2global_map s) = number_of_elements g"
    using ok by (simp_all add: state_ok_def)
  have "row_ok g support ibd s' el \<and> set (delete_from_support s') \<subseteq> set (done @ [el])"
    using run
  proof (cases rule: finish_element_cases)
    case drop
    have eln: "el < number_of_elements g" using drop(2) lm by simp
    have m0: "local_multipliers s ! el ! k = 0" if "k < 3" for k
    proof -
      have "dm ! k = - 1" using drop(1) that len by simp
      with R [OF that] slot_rec_sign(1) show ?thesis by blast
    qed
    have mrow: "local_multipliers s' ! el = [0, 0, 0]"
      and lrow: "local2global_map s' ! el = [0, 0, 0]"
      and dels: "delete_from_support s' = delete_from_support s @ [el]"
      using drop(2,3,4) by simp_all
    have "slot_done g support ibd s' el k" if "k < 3" for k
    proof -
      have "dm ! k = - 1" using drop(1) that len by simp
      with R [OF that] m0 [OF that]
      have "slot_rec g support ibd el k 0 (- 1) (edge_dofs s)" by simp
      then have "slot_rec g support ibd el k (local_multipliers s' ! el ! k) (- 1) (edge_dofs s')"
        unfolding fr(2) mrow using that by (simp add: nth_zero_row)
      moreover have "local_multipliers s' ! el ! k = 0"
        unfolding mrow using that by (rule nth_zero_row)
      ultimately show ?thesis unfolding slot_done_def by blast
    qed
    moreover have "row_fill s' el"
      unfolding row_fill_def mrow lrow dels by (simp add: nth_zero_row)
    ultimately have "row_ok g support ibd s' el"
      using eln by (simp add: row_ok_def)
    then show ?thesis using del dels by auto
  next
    case (keep dm')
    let ?row = "local_multipliers s ! el"
    let ?first = "min_list (flatnonzero (\<lambda>x. x \<noteq> 0) ?row)"
    have eln: "el < number_of_elements g" using keep(2) lm by simp
    have rowlen: "length ?row = 3"
      using ok keep(2) by (simp add: state_ok_def)
    have mrow: "local_multipliers s' ! el = ?row"
      and lrow: "local2global_map s' ! el = map to_uint32 dm'"
      and dels: "delete_from_support s' = delete_from_support s"
      and cnt: "count s' = count s"
      using keep(3,8) by simp_all
    have len': "length dm' = 3" using keep(6) len by simp
    have first: "?first < 3" "?row ! ?first \<noteq> 0"
      using min_list_mem [OF keep(4)] rowlen by (simp_all add: flatnonzero_mem)
    have dmk: "dm' ! k = (if ?row ! k = 0 then dm ! ?first else dm ! k)" if "k < 3" for k
      using keep(7) that len rowlen by (simp add: flatnonzero_mem)
    have lk: "local2global_map s' ! el ! k = to_uint32 (dm' ! k)" if "k < 3" for k
      unfolding lrow using that len' by simp
    have "slot_done g support ibd s' el k" if "k < 3" for k
    proof -
      have r: "slot_rec g support ibd el k (local_multipliers s' ! el ! k) (dm ! k) (edge_dofs s')"
        unfolding fr(2) mrow by (rule R [OF that])
      have "local2global_map s' ! el ! k = to_uint32 (dm ! k) \<and> dm ! k < count s'"
        if nz: "local_multipliers s' ! el ! k \<noteq> 0"
      proof -
        from nz have "?row ! k \<noteq> 0" unfolding mrow .
        then have "dm' ! k = dm ! k" using dmk [OF \<open>k < 3\<close>] by simp
        moreover have "dm ! k \<noteq> - 1"
          using slot_rec_sign(1) [OF r] nz by simp
        moreover have "dm ! k \<in> set dm" using \<open>k < 3\<close> len by simp
        ultimately show ?thesis
          using lk [OF \<open>k < 3\<close>] dmok cnt by (auto simp: dofmap_ok_def)
      qed
      with r show ?thesis unfolding slot_done_def by blast
    qed
    moreover have "row_fill s' el"
    proof -
      have nz: "\<not> (\<forall>l<3. local_multipliers s' ! el ! l = 0)"
        unfolding mrow using first by blast
      have notdel: "el \<notin> set (delete_from_support s')"
        unfolding dels using del eld by blast
      have fill: "local2global_map s' ! el ! l = local2global_map s' ! el ! ?first"
        if "l < 3" "local_multipliers s' ! el ! l = 0" for l
      proof -
        have "dm' ! l = dm ! ?first" using dmk [OF that(1)] that(2) mrow by simp
        moreover have "dm' ! ?first = dm ! ?first" using dmk [OF first(1)] first(2) by simp
        ultimately show ?thesis using lk [OF that(1)] lk [OF first(1)] by simp
      qed
      show ?thesis
        unfolding row_fill_def using nz notdel fill mrow by simp
    qed
    ultimately have "row_ok g support ibd s' el"
      using eln by (simp add: row_ok_def)
    then show ?thesis using del dels by auto
  qed
  then show ?thesis
    unfolding outer_inv_def using ok' rows' zero' by auto
qed

lemma outer_inv_initial: "outer_inv g support ibd [] (initial_state g)"
  using initial_state_ok [of g]
  by (simp add: outer_inv_def initial_state_def)

text \<open>The invariant holds when the loop over the elements of the support ends.\<close>

lemma assign_dofs_outer_inv:
  assumes "assign_dofs g support ibd = Inr st"
  shows "outer_inv g support ibd (flatnonzero (\<lambda>b. b) support) st"
  using assms
proof (rule assign_dofs_invariant [where J = "inner_inv g support ibd"])
  show "outer_inv g support ibd [] (initial_state g)" by (rule outer_inv_initial)
qed (auto intro: inner_inv_enter inner_inv_slot outer_inv_finish)

section \<open>The space that the constructor returns\<close>

lemma rwg0_init_Inr:
  assumes "rwg0_init g support ibd = Inr sp"
  obtains st support' where
    "assign_dofs g support ibd = Inr st"
    "shrink_support support (delete_from_support st) = Inr support'"
    "support_size support' \<noteq> 0"
    "sp = \<lparr>sp_grid = g, global_dof_count = count st,
            local2global = local2global_map st, multipliers = local_multipliers st,
            sp_support = support', number_of_shape_functions = 3\<rparr>"
  using assms by (auto simp: rwg0_init_def ebind_Inr_iff split: if_splits)

lemma shrink_support_Inr:
  assumes "shrink_support support dels = Inr support'"
  shows "length support' = length support"
    and "i < length support \<Longrightarrow> support' ! i = (support ! i \<and> i \<notin> set dels)"
  using fill_zero_slots [OF assms [unfolded shrink_support_def]] by auto

lemma store_all_total:
  assumes "\<forall>i \<in> set idx. i < length xs"
  shows "\<exists>ys. efold (\<lambda>d i. store d i v) idx xs = Inr ys"
  using assms
proof (induction idx arbitrary: xs)
  case Nil
  then show ?case by simp
next
  case (Cons i idx)
  then have "\<forall>k \<in> set idx. k < length (xs[i := v])" by simp
  from Cons.IH [OF this] Cons.prems show ?case by (simp add: store_def)
qed

lemma set_flatnonzero_support:
  "set (flatnonzero (\<lambda>b. b) support) = {el. el < length support \<and> support ! el}"
  by (auto simp: flatnonzero_mem)

text \<open>What is known of the state when the loop over the elements has ended.\<close>

lemma assign_dofs_final:
  assumes "assign_dofs g support ibd = Inr st"
  shows "state_ok g st"
    and "el < length support \<Longrightarrow> support ! el \<Longrightarrow> row_ok g support ibd st el"
    and "el < number_of_elements g \<Longrightarrow> \<not> (el < length support \<and> support ! el) \<Longrightarrow>
           local_multipliers st ! el = [0, 0, 0] \<and> local2global_map st ! el = [0, 0, 0]"
    and "set (delete_from_support st) \<subseteq> {el. el < length support \<and> support ! el}"
  using assign_dofs_outer_inv [OF assms]
  unfolding outer_inv_def set_flatnonzero_support by auto

lemma shrink_support_total:
  assumes "assign_dofs g support ibd = Inr st"
  shows "\<exists>support'. shrink_support support (delete_from_support st) = Inr support'"
  unfolding shrink_support_def
  using assign_dofs_final(4) [OF assms] by (intro store_all_total) auto

lemma final_support_mem:
  assumes run: "assign_dofs g support ibd = Inr st"
    and sh: "shrink_support support (delete_from_support st) = Inr support'"
    and el: "el < length support" "support' ! el"
  shows "support ! el" and "el \<notin> set (delete_from_support st)"
    and "row_ok g support ibd st el"
proof -
  show s: "support ! el" and "el \<notin> set (delete_from_support st)"
    using shrink_support_Inr(2) [OF sh el(1)] el(2) by simp_all
  show "row_ok g support ibd st el"
    using run el(1) s by (rule assign_dofs_final(2))
qed

lemma to_uint32_le: "0 \<le> d \<Longrightarrow> int (to_uint32 d) \<le> d"
  by (simp add: to_uint32_def zmod_le_nonneg_dividend)

lemma to_uint32_small: "0 \<le> d \<Longrightarrow> d < 2 ^ 32 \<Longrightarrow> int (to_uint32 d) = d"
  by (simp add: to_uint32_def)

text \<open>
  Claim C6. When the loop over the elements has ended, the shrinking of the support
  succeeds; the constructor fails with the empty-support error when no element is left,
  and returns a space with the shrunk support when one is.
\<close>

theorem empty_support_error:
  assumes "assign_dofs g support ibd = Inr st"
  shows "\<exists>support'. shrink_support support (delete_from_support st) = Inr support'
           \<and> (support_size support' = 0 \<longrightarrow> rwg0_init g support ibd = Inl EmptySupport)
           \<and> (support_size support' \<noteq> 0 \<longrightarrow>
                (\<exists>sp. rwg0_init g support ibd = Inr sp \<and> sp_support sp = support'))"
proof -
  from shrink_support_total [OF assms] obtain support' where
    "shrink_support support (delete_from_support st) = Inr support'" ..
  then show ?thesis
    using assms by (auto simp: rwg0_init_def)
qed

lemma assign_dofs_single_triangle:
  "assign_dofs single_triangle [True] False =
     Inr \<lparr>local2global_map = [[0, 0, 0]], local_multipliers = [[0, 0, 0]],
          edge_dofs = [- 1, - 1, - 1], delete_from_support = [0], count = 0\<rparr>"
  by code_simp

lemma assign_dofs_two_triangles:
  "assign_dofs two_triangles [True, True] False =
     Inr \<lparr>local2global_map = [[0, 0, 0], [0, 0, 0]],
          local_multipliers = [[0, 0, 1], [- 1, 0, 0]],
          edge_dofs = [- 1, - 1, 0, - 1, - 1], delete_from_support = [], count = 1\<rparr>"
  by code_simp

lemma rwg0_init_two_triangles:
  "rwg0_init two_triangles [True, True] False =
     Inr \<lparr>sp_grid = two_triangles, global_dof_count = 1,
          local2global = [[0, 0, 0], [0, 0, 0]],
          multipliers = [[0, 0, 1], [- 1, 0, 0]], sp_support = [True, True],
          number_of_shape_functions = 3\<rparr>"
  by code_simp

text \<open>
  The single isolated triangle without boundary DOFs: the loop ends, the triangle is
  dropped and the constructor fails with the empty-support error. The two triangles with
  a common edge: the support keeps both and the constructor returns.
\<close>

theorem empty_support_error_witness:
  "assign_dofs single_triangle [True] False =
     Inr \<lparr>local2global_map = [[0, 0, 0]], local_multipliers = [[0, 0, 0]],
          edge_dofs = [- 1, - 1, - 1], delete_from_support = [0], count = 0\<rparr>
   \<and> shrink_support [True] [0] = Inr [False]
   \<and> support_size [False] = 0
   \<and> rwg0_init single_triangle [True] False = Inl EmptySupport
   \<and> assign_dofs two_triangles [True, True] False =
     Inr \<lparr>local2global_map = [[0, 0, 0], [0, 0, 0]],
          local_multipliers = [[0, 0, 1], [- 1, 0, 0]],
          edge_dofs = [- 1, - 1, 0, - 1, - 1], delete_from_support = [], count = 1\<rparr>
   \<and> shrink_support [True, True] [] = Inr [True, True]
   \<and> support_size [True, True] \<noteq> 0
   \<and> (\<exists>sp. rwg0_init two_triangles [True, True] False = Inr sp
            \<and> sp_support sp = [True, True])"
proof -
  have s1: "shrink_support [True] [0] = Inr [False]"
    and s2: "shrink_support [True, True] [] = Inr [True, True]"
    by (simp_all add: shrink_support_def store_def)
  have z: "support_size [False] = 0" "support_size [True, True] \<noteq> 0"
    by (simp_all add: support_size_def)
  from empty_support_error [OF assign_dofs_single_triangle]
  have a: "rwg0_init single_triangle [True] False = Inl EmptySupport"
    using s1 z by simp
  from empty_support_error [OF assign_dofs_two_triangles]
  have b: "\<exists>sp. rwg0_init two_triangles [True, True] False = Inr sp
             \<and> sp_support sp = [True, True]"
    using s2 z by simp
  show ?thesis
    using assign_dofs_single_triangle assign_dofs_two_triangles s1 s2 z a b by simp
qed

section \<open>Boundary DOFs included\<close>

lemma include_boundary_nonzero:
  assumes run: "assign_dofs g support True = Inr st"
    and el: "el < length support" "support ! el" and l: "l < 3"
  shows "local_multipliers st ! el ! l = 1 \<or> local_multipliers st ! el ! l = - 1"
proof -
  have "row_ok g support True st el" using run el by (rule assign_dofs_final(2))
  with l have "slot_done g support True st el l" by (simp add: row_ok_def)
  then show ?thesis
    by (auto simp: slot_done_def slot_rec_def split: if_splits)
qed

lemma include_boundary_no_delete:
  assumes run: "assign_dofs g support True = Inr st"
  shows "delete_from_support st = []"
proof -
  have "el \<notin> set (delete_from_support st)" for el
  proof
    assume d: "el \<in> set (delete_from_support st)"
    with assign_dofs_final(4) [OF run] have el: "el < length support" "support ! el"
      by auto
    have "row_fill st el"
      using assign_dofs_final(2) [OF run el] by (simp add: row_ok_def)
    moreover have "local_multipliers st ! el ! 0 \<noteq> 0"
      using include_boundary_nonzero [OF run el, of 0] by auto
    ultimately show False
      using d unfolding row_fill_def by (auto split: if_splits)
  qed
  then show ?thesis by (cases "delete_from_support st") auto
qed

text \<open>
  Claim C9. With boundary DOFs included, the loop marks no element for removal, the
  support that the constructor returns is the support it was given, and every slot of
  every element of the support has the multiplier 1 or -1.
\<close>

theorem include_boundary_keeps_support:
  assumes "assign_dofs g support True = Inr st"
  shows "delete_from_support st = []
     \<and> shrink_support support (delete_from_support st) = Inr support
     \<and> (\<forall>sp. rwg0_init g support True = Inr sp \<longrightarrow>
           sp_support sp = support \<and> multipliers sp = local_multipliers st)
     \<and> (\<forall>el<length support. support ! el \<longrightarrow>
           (\<forall>l<3. local_multipliers st ! el ! l = 1 \<or> local_multipliers st ! el ! l = - 1))"
proof -
  have d: "delete_from_support st = []"
    using assms by (rule include_boundary_no_delete)
  then have s: "shrink_support support (delete_from_support st) = Inr support"
    by (simp add: shrink_support_def)
  have "sp_support sp = support \<and> multipliers sp = local_multipliers st"
    if "rwg0_init g support True = Inr sp" for sp
    using that assms s by (auto simp: rwg0_init_def split: if_splits)
  moreover have "\<forall>el<length support. support ! el \<longrightarrow>
      (\<forall>l<3. local_multipliers st ! el ! l = 1 \<or> local_multipliers st ! el ! l = - 1)"
    using include_boundary_nonzero [OF assms] by blast
  ultimately show ?thesis using d s by blast
qed

lemma assign_dofs_second_triangle_boundary:
  "assign_dofs two_triangles [False, True] True =
     Inr \<lparr>local2global_map = [[0, 0, 0], [0, 1, 2]],
          local_multipliers = [[0, 0, 0], [1, 1, 1]],
          edge_dofs = [- 1, - 1, - 1, - 1, - 1], delete_from_support = [], count = 3\<rparr>"
  by code_simp

lemma rwg0_init_second_triangle_boundary:
  "rwg0_init two_triangles [False, True] True = Inr second_triangle_space"
  unfolding second_triangle_space_def by code_simp

text \<open>The second of the two triangles alone, with its three boundary DOFs.\<close>

theorem include_boundary_keeps_support_witness:
  "assign_dofs two_triangles [False, True] True =
     Inr \<lparr>local2global_map = [[0, 0, 0], [0, 1, 2]],
          local_multipliers = [[0, 0, 0], [1, 1, 1]],
          edge_dofs = [- 1, - 1, - 1, - 1, - 1], delete_from_support = [], count = 3\<rparr>
   \<and> rwg0_init two_triangles [False, True] True = Inr second_triangle_space
   \<and> sp_support second_triangle_space = [False, True]
   \<and> (1::nat) < length [False, True] \<and> [False, True] ! 1
   \<and> ([[0, 0, 0], [1, 1, 1 :: int]] ! 1 ! 2 = 1 \<or> [[0, 0, 0], [1, 1, 1 :: int]] ! 1 ! 2 = - 1)"
proof -
  note t = include_boundary_keeps_support [OF assign_dofs_second_triangle_boundary]
  from t have "sp_support second_triangle_space = [False, True]"
    using rwg0_init_second_triangle_boundary by blast
  moreover from t have
    "[[0, 0, 0], [1, 1, 1 :: int]] ! 1 ! 2 = 1 \<or> [[0, 0, 0], [1, 1, 1 :: int]] ! 1 ! 2 = - 1"
    by simp
  ultimately show ?thesis
    using assign_dofs_second_triangle_boundary rwg0_init_second_triangle_boundary by simp
qed

section \<open>Elements of the final support\<close>

lemma first_nonzero_slot:
  assumes "length row = 3" "l < 3" "row ! l \<noteq> (0::int)"
  shows "min_list (flatnonzero (\<lambda>x. x \<noteq> 0) row) < 3"
    and "row ! min_list (flatnonzero (\<lambda>x. x \<noteq> 0) row) \<noteq> 0"
proof -
  have "l \<in> set (flatnonzero (\<lambda>x. x \<noteq> 0) row)"
    using assms by (simp add: flatnonzero_mem)
  then have "flatnonzero (\<lambda>x. x \<noteq> 0) row \<noteq> []" by auto
  from min_list_mem [OF this] assms(1)
  show "min_list (flatnonzero (\<lambda>x. x \<noteq> 0) row) < 3"
    and "row ! min_list (flatnonzero (\<lambda>x. x \<noteq> 0) row) \<noteq> 0"
    by (simp_all add: flatnonzero_mem)
qed

lemma slot_done_id_bound:
  assumes "slot_done g support ibd st el l" "local_multipliers st ! el ! l \<noteq> 0"
  shows "int (local2global_map st ! el ! l) < count st"
proof -
  from assms obtain d where
    r: "slot_rec g support ibd el l (local_multipliers st ! el ! l) d (edge_dofs st)"
    and v: "local2global_map st ! el ! l = to_uint32 d" "d < count st"
    unfolding slot_done_def by blast
  from slot_rec_sign(1,3) [OF r] assms(2) have "0 \<le> d" by auto
  from to_uint32_le [OF this] v show ?thesis by simp
qed

lemma kept_row_id_bound:
  assumes ok: "state_ok g st" and row: "row_ok g support ibd st el"
    and kept: "el \<notin> set (delete_from_support st)" and l: "l < 3"
  shows "int (local2global_map st ! el ! l) < count st"
proof -
  let ?row = "local_multipliers st ! el"
  let ?first = "min_list (flatnonzero (\<lambda>x. x \<noteq> 0) ?row)"
  from row have eln: "el < number_of_elements g"
    and slots: "\<And>k. k < 3 \<Longrightarrow> slot_done g support ibd st el k"
    and fill: "row_fill st el"
    by (simp_all add: row_ok_def)
  have rowlen: "length ?row = 3" using ok eln by (simp add: state_ok_def)
  from fill kept obtain k where k: "k < 3" "?row ! k \<noteq> 0"
    and aliased: "\<forall>l<3. ?row ! l = 0 \<longrightarrow>
         local2global_map st ! el ! l = local2global_map st ! el ! ?first"
    unfolding row_fill_def by (auto split: if_splits)
  note first = first_nonzero_slot [OF rowlen k]
  show ?thesis
  proof (cases "?row ! l = 0")
    case True
    with aliased l have "local2global_map st ! el ! l = local2global_map st ! el ! ?first"
      by simp
    with slot_done_id_bound [OF slots [OF first(1)] first(2)] show ?thesis by simp
  next
    case False
    with slot_done_id_bound [OF slots [OF l]] show ?thesis by simp
  qed
qed

lemma final_support_rows:
  assumes init: "rwg0_init g support ibd = Inr sp"
    and len: "length support = number_of_elements g"
    and el: "el < number_of_elements g"
  shows "(sp_support sp ! el \<longrightarrow> (\<exists>l<3. multipliers sp ! el ! l \<noteq> 0))
     \<and> ((\<forall>l<3. multipliers sp ! el ! l = 0) \<longrightarrow>
           \<not> sp_support sp ! el \<and> local2global sp ! el = [0, 0, 0])
     \<and> (sp_support sp ! el \<longrightarrow>
           (\<forall>l<3. multipliers sp ! el ! l = 0 \<longrightarrow>
              local2global sp ! el ! l =
              local2global sp ! el ! min_list (flatnonzero (\<lambda>x. x \<noteq> 0) (multipliers sp ! el))))
     \<and> (sp_support sp ! el \<longrightarrow>
           (\<forall>l<3. int (local2global sp ! el ! l) < global_dof_count sp
                  \<and> (global_dof_count sp < 2 ^ 32 \<longrightarrow>
                        local2global sp ! el ! l \<noteq> to_uint32 (- 1))))"
proof -
  from init obtain st support' where
    run: "assign_dofs g support ibd = Inr st"
    and sh: "shrink_support support (delete_from_support st) = Inr support'"
    and sp: "sp = \<lparr>sp_grid = g, global_dof_count = count st,
            local2global = local2global_map st, multipliers = local_multipliers st,
            sp_support = support', number_of_shape_functions = 3\<rparr>"
    by (rule rwg0_init_Inr)
  have f: "sp_support sp = support'" "multipliers sp = local_multipliers st"
    "local2global sp = local2global_map st" "global_dof_count sp = count st"
    by (simp_all add: sp)
  have el': "el < length support" using el len by simp
  have mem: "support' ! el \<longleftrightarrow> support ! el \<and> el \<notin> set (delete_from_support st)"
    using shrink_support_Inr(2) [OF sh el'] .
  have ok: "state_ok g st" using run by (rule assign_dofs_final(1))
  have sentinel: "to_uint32 (- 1) = 4294967295"
    by (simp add: to_uint32_def)
  show ?thesis
  proof (cases "support ! el")
    case False
    then have z: "local_multipliers st ! el = [0, 0, 0]" "local2global_map st ! el = [0, 0, 0]"
      using assign_dofs_final(3) [OF run el] by simp_all
    show ?thesis
      unfolding f using False mem z by (simp add: nth_zero_row)
  next
    case True
    have row: "row_ok g support ibd st el" using run el' True by (rule assign_dofs_final(2))
    then have fill: "row_fill st el" by (simp add: row_ok_def)
    show ?thesis
    proof (cases "el \<in> set (delete_from_support st)")
      case d: True
      with fill have "\<forall>l<3. local_multipliers st ! el ! l = 0"
        "local2global_map st ! el = [0, 0, 0]"
        unfolding row_fill_def by (auto split: if_splits)
      then show ?thesis unfolding f using mem d by simp
    next
      case d: False
      with fill have nz: "\<not> (\<forall>l<3. local_multipliers st ! el ! l = 0)"
        and aliased: "\<forall>l<3. local_multipliers st ! el ! l = 0 \<longrightarrow>
          local2global_map st ! el ! l = local2global_map st ! el !
            min_list (flatnonzero (\<lambda>x. x \<noteq> 0) (local_multipliers st ! el))"
        unfolding row_fill_def by (auto split: if_splits)
      have bound: "int (local2global_map st ! el ! l) < count st" if "l < 3" for l
        using ok row d that by (rule kept_row_id_bound)
      have "local2global_map st ! el ! l \<noteq> to_uint32 (- 1)"
        if "l < 3" "count st < 2 ^ 32" for l
        using bound [OF that(1)] that(2) unfolding sentinel by auto
      with nz aliased bound show ?thesis unfolding f using mem d True by auto
    qed
  qed
qed

text \<open>
  Claim C4. In the space that the constructor returns, an element of the support has a
  nonzero multiplier in one of its three slots; an element whose three multipliers are
  zero is not in the support, and its row of the local-to-global map is zero; in an element
  of the support a slot with multiplier zero holds the identifier of the lowest slot with
  a nonzero multiplier; and every identifier of an element of the support is below the
  global DOF count, so that it is not the sentinel -1 (as \<open>uint32\<close>) while that count is
  below 2^32.
\<close>

theorem support_rows_have_dofs:
  assumes "rwg0_init g support ibd = Inr sp"
    and "length support = number_of_elements g"
    and "el < number_of_elements g"
  shows "(sp_support sp ! el \<longrightarrow> (\<exists>l<3. multipliers sp ! el ! l \<noteq> 0))
     \<and> ((\<forall>l<3. multipliers sp ! el ! l = 0) \<longrightarrow>
           \<not> sp_support sp ! el \<and> local2global sp ! el = [0, 0, 0])
     \<and> (sp_support sp ! el \<longrightarrow>
           (\<forall>l<3. multipliers sp ! el ! l = 0 \<longrightarrow>
              local2global sp ! el ! l =
              local2global sp ! el ! min_list (flatnonzero (\<lambda>x. x \<noteq> 0) (multipliers sp ! el))))
     \<and> (sp_support sp ! el \<longrightarrow>
           (\<forall>l<3. int (local2global sp ! el ! l) < global_dof_count sp
                  \<and> (global_dof_count sp < 2 ^ 32 \<longrightarrow>
                        local2global sp ! el ! l \<noteq> to_uint32 (- 1))))"
  using assms by (rule final_support_rows)

lemma rwg0_init_shared_edge_space:
  "rwg0_init two_triangles [True, True] False = Inr shared_edge_space"
  unfolding shared_edge_space_def by (rule rwg0_init_two_triangles)

text \<open>
  The two triangles without boundary DOFs, at the first triangle: slot 2 has the DOF of
  the common edge, slot 0 has multiplier zero and the identifier of slot 2.
\<close>

theorem support_rows_have_dofs_witness:
  "rwg0_init two_triangles [True, True] False = Inr shared_edge_space
   \<and> length [True, True] = number_of_elements two_triangles
   \<and> 0 < number_of_elements two_triangles
   \<and> sp_support shared_edge_space ! 0
   \<and> multipliers shared_edge_space ! 0 ! 0 = 0
   \<and> local2global shared_edge_space ! 0 ! 0 =
       local2global shared_edge_space ! 0 !
         min_list (flatnonzero (\<lambda>x. x \<noteq> 0) (multipliers shared_edge_space ! 0))
   \<and> int (local2global shared_edge_space ! 0 ! 0) < global_dof_count shared_edge_space"
proof -
  have len: "length [True, True] = number_of_elements two_triangles"
    and el: "0 < number_of_elements two_triangles"
    by (simp_all add: two_triangles_def)
  have s: "sp_support shared_edge_space ! 0"
    and m: "multipliers shared_edge_space ! 0 ! 0 = 0"
    by (simp_all add: shared_edge_space_def)
  have z: "(0::nat) < 3" by simp
  from support_rows_have_dofs [OF rwg0_init_shared_edge_space len el] s m z
  have "local2global shared_edge_space ! 0 ! 0 =
       local2global shared_edge_space ! 0 !
         min_list (flatnonzero (\<lambda>x. x \<noteq> 0) (multipliers shared_edge_space ! 0))"
    and "int (local2global shared_edge_space ! 0 ! 0) < global_dof_count shared_edge_space"
    by blast+
  then show ?thesis
    using rwg0_init_shared_edge_space len el s m by blast
qed

section \<open>Two elements across an edge\<close>

lemma find_other_pair:
  assumes "b < length support" "support ! b" "a \<noteq> b"
  shows "find_other support a [a, b] = Inr (int b)"
    and "find_other support a [b, a] = Inr (int b)"
  using assms by (simp_all add: find_other_def lookup_def)

lemma interior_slot:
  assumes run: "assign_dofs g support ibd = Inr st"
    and el: "el < length support" "support ! el" and l: "l < 3"
    and other: "slot_other g support el l = Inr (int b)"
  shows "local_multipliers st ! el ! l
           = (if el = min_list (slot_neighbors g el l) then 1 else - 1)"
    and "local2global_map st ! el ! l = to_uint32 (edge_dofs st ! slot_edge g el l)"
    and "0 \<le> edge_dofs st ! slot_edge g el l"
    and "edge_dofs st ! slot_edge g el l < count st"
    and "slot_edge g el l < length (edge_dofs st)"
proof -
  have "row_ok g support ibd st el" using run el by (rule assign_dofs_final(2))
  with l have "slot_done g support ibd st el l" by (simp add: row_ok_def)
  then obtain d where
    r: "slot_rec g support ibd el l (local_multipliers st ! el ! l) d (edge_dofs st)"
    and v: "local_multipliers st ! el ! l \<noteq> 0 \<longrightarrow>
             local2global_map st ! el ! l = to_uint32 d \<and> d < count st"
    unfolding slot_done_def by blast
  have ne: "int b \<noteq> - 1" by simp
  from r other ne have
    m: "local_multipliers st ! el ! l
          = (if el = min_list (slot_neighbors g el l) then 1 else - 1)"
    and e: "slot_edge g el l < length (edge_dofs st)"
      "edge_dofs st ! slot_edge g el l = d" "0 \<le> d"
    unfolding slot_rec_def by (auto split: if_splits)
  from m have "local_multipliers st ! el ! l \<noteq> 0" by simp
  with v have "local2global_map st ! el ! l = to_uint32 d" "d < count st" by simp_all
  with m e show "local_multipliers st ! el ! l
           = (if el = min_list (slot_neighbors g el l) then 1 else - 1)"
    and "local2global_map st ! el ! l = to_uint32 (edge_dofs st ! slot_edge g el l)"
    and "0 \<le> edge_dofs st ! slot_edge g el l"
    and "edge_dofs st ! slot_edge g el l < count st"
    and "slot_edge g el l < length (edge_dofs st)"
    by simp_all
qed

lemma shared_edge_slots:
  assumes init: "rwg0_init g support ibd = Inr sp"
    and ab: "a < length support" "b < length support" "a \<noteq> b"
    and sup: "sp_support sp ! a" "sp_support sp ! b"
    and lm: "l < 3" "m < 3"
    and edge: "slot_edge g a l = e" "slot_edge g b m = e"
    and nb: "edge_neighbors g ! e = [a, b]"
  shows "multipliers sp ! a ! l = (if a < b then 1 else - 1)
     \<and> multipliers sp ! b ! m = (if b < a then 1 else - 1)
     \<and> local2global sp ! a ! l = local2global sp ! b ! m"
proof -
  from init obtain st support' where
    run: "assign_dofs g support ibd = Inr st"
    and sh: "shrink_support support (delete_from_support st) = Inr support'"
    and sp: "sp = \<lparr>sp_grid = g, global_dof_count = count st,
            local2global = local2global_map st, multipliers = local_multipliers st,
            sp_support = support', number_of_shape_functions = 3\<rparr>"
    by (rule rwg0_init_Inr)
  have f: "sp_support sp = support'" "multipliers sp = local_multipliers st"
    "local2global sp = local2global_map st"
    by (simp_all add: sp)
  have sa: "support ! a" and sb: "support ! b"
    using final_support_mem(1) [OF run sh] ab(1,2) sup unfolding f by blast+
  have na: "slot_neighbors g a l = [a, b]" and nbm: "slot_neighbors g b m = [a, b]"
    using edge nb by (simp_all add: slot_neighbors_def)
  have oa: "slot_other g support a l = Inr (int b)"
    unfolding slot_other_def na using ab(2) sb ab(3) by (rule find_other_pair(1))
  have ob: "slot_other g support b m = Inr (int a)"
    unfolding slot_other_def nbm using ab(1) sa ab(3) [symmetric] by (rule find_other_pair(2))
  note A = interior_slot [OF run ab(1) sa lm(1) oa]
  note B = interior_slot [OF run ab(2) sb lm(2) ob]
  have mina: "a = min_list [a, b] \<longleftrightarrow> a < b" and minb: "b = min_list [a, b] \<longleftrightarrow> b < a"
    using ab(3) by auto
  show ?thesis
    unfolding f A(1,2) B(1,2) na nbm edge mina minb by simp
qed

text \<open>
  Claim C2. When two distinct elements of the final support are the two neighbours of an
  edge, each holding it in one of its slots, the multiplier of that slot is 1 in the
  element with the smaller index and -1 in the other, and the two slots have the same
  global DOF identifier. (Both multipliers are then nonzero.)
\<close>

theorem shared_edge_opposite_signs:
  assumes "rwg0_init g support ibd = Inr sp"
    and "a < length support" "b < length support" "a \<noteq> b"
    and "sp_support sp ! a" "sp_support sp ! b"
    and "l < 3" "m < 3"
    and "slot_edge g a l = e" "slot_edge g b m = e"
    and "edge_neighbors g ! e = [a, b]"
  shows "multipliers sp ! a ! l = (if a < b then 1 else - 1)
     \<and> multipliers sp ! b ! m = (if b < a then 1 else - 1)
     \<and> local2global sp ! a ! l = local2global sp ! b ! m"
  using assms by (rule shared_edge_slots)

text \<open>The common edge 2 of the two triangles: slot 2 of the first, slot 0 of the second.\<close>

theorem shared_edge_opposite_signs_witness:
  "rwg0_init two_triangles [True, True] False = Inr shared_edge_space
   \<and> (0::nat) < length [True, True] \<and> (1::nat) < length [True, True] \<and> (0::nat) \<noteq> 1
   \<and> sp_support shared_edge_space ! 0 \<and> sp_support shared_edge_space ! 1
   \<and> (2::nat) < 3 \<and> (0::nat) < 3
   \<and> slot_edge two_triangles 0 2 = 2 \<and> slot_edge two_triangles 1 0 = 2
   \<and> edge_neighbors two_triangles ! 2 = [0, 1]
   \<and> multipliers shared_edge_space ! 0 ! 2 = 1
   \<and> multipliers shared_edge_space ! 1 ! 0 = - 1
   \<and> local2global shared_edge_space ! 0 ! 2 = local2global shared_edge_space ! 1 ! 0"
proof -
  have h: "(0::nat) < length [True, True]" "(1::nat) < length [True, True]" "(0::nat) \<noteq> 1"
    "sp_support shared_edge_space ! 0" "sp_support shared_edge_space ! 1"
    "(2::nat) < 3" "(0::nat) < 3"
    "slot_edge two_triangles 0 2 = 2" "slot_edge two_triangles 1 0 = 2"
    "edge_neighbors two_triangles ! 2 = [0, 1]"
    by (simp_all add: shared_edge_space_def slot_edge_def two_triangles_def)
  from shared_edge_opposite_signs [OF rwg0_init_shared_edge_space h]
  show ?thesis
    using rwg0_init_shared_edge_space h by simp
qed

section \<open>The loop ends on a well-formed grid\<close>

lemma efold_total:
  assumes init: "I [] s"
    and step: "\<And>ys x zs t. xs = ys @ x # zs \<Longrightarrow> I ys t
                 \<Longrightarrow> \<exists>t'. f t x = Inr t' \<and> I (ys @ [x]) t'"
  shows "\<exists>s'. efold f xs s = Inr s' \<and> I xs s'"
proof -
  have "I ys t \<Longrightarrow> xs = ys @ zs \<Longrightarrow> \<exists>s'. efold f zs t = Inr s' \<and> I xs s'" for ys zs t
  proof (induction zs arbitrary: ys t)
    case Nil
    then show ?case by simp
  next
    case (Cons z zs)
    from step [of ys z zs t] Cons.prems obtain t' where
      t': "f t z = Inr t'" and I': "I (ys @ [z]) t'"
      by blast
    from Cons.IH [of "ys @ [z]" t'] I' Cons.prems(2) obtain s' where
      "efold f zs t' = Inr s'" "I xs s'"
      by auto
    with t' show ?case by simp
  qed
  from this [of "[]" s xs] init show ?thesis by simp
qed

lemma lookup_in_range: "i < length xs \<Longrightarrow> lookup xs i = Inr (xs ! i)"
  by (simp add: lookup_def)

lemma store_in_range: "i < length xs \<Longrightarrow> store xs i v = Inr (xs[i := v])"
  by (simp add: store_def)

lemma store2_in_range:
  "i < length a \<Longrightarrow> j < length (a ! i) \<Longrightarrow> store2 a i j v = Inr (a[i := (a ! i)[j := v]])"
  by (simp add: store2_def lookup_in_range store_in_range)

lemma find_other_total:
  assumes "length nbrs = 1 \<or> length nbrs = 2" "\<forall>x \<in> set nbrs. x < length support"
  shows "\<exists>other. find_other support el nbrs = Inr other"
proof (cases "length nbrs = 1")
  case True
  then show ?thesis by (simp add: find_other_def)
next
  case False
  with assms(1) have len: "length nbrs = 2" by simp
  then have "nbrs ! 0 \<in> set nbrs" "nbrs ! 1 \<in> set nbrs" by simp_all
  with assms(2) have "nbrs ! 0 < length support" "nbrs ! 1 < length support" by simp_all
  with len show ?thesis
    by (simp add: find_other_def lookup_in_range)
qed

lemma slot_step_total:
  assumes wf: "grid_wf g" and sup: "length support = number_of_elements g"
    and ok: "state_ok g s" and dm: "length dm = 3"
    and el: "el < number_of_elements g" and l: "l < 3"
  shows "\<exists>r. slot_step g support ibd el (s, dm) l = Inr r"
proof -
  let ?e = "element_edges g ! l ! el"
  let ?nbrs = "edge_neighbors g ! ?e"
  have l': "l < length (element_edges g)" using wf l by (simp add: grid_wf_def)
  then have "element_edges g ! l \<in> set (element_edges g)" by simp
  then have el': "el < length (element_edges g ! l)" using wf el by (simp add: grid_wf_def)
  have e: "?e < number_of_edges g" using wf l el by (simp add: grid_wf_def)
  then have e1: "?e < length (edge_neighbors g)" using wf by (simp add: grid_wf_def)
  have e2: "?e < length (edge_dofs s)" using ok e by (simp add: state_ok_def)
  have "?nbrs \<in> set (edge_neighbors g)" using e1 by simp
  then have "length ?nbrs = 1 \<or> length ?nbrs = 2" "\<forall>x \<in> set ?nbrs. x < length support"
    using wf sup by (simp_all add: grid_wf_def)
  then obtain other where o: "find_other support el ?nbrs = Inr other"
    using find_other_total by blast
  have m1: "el < length (local_multipliers s)" using ok el by (simp add: state_ok_def)
  then have "local_multipliers s ! el \<in> set (local_multipliers s)" by simp
  then have m2: "l < length (local_multipliers s ! el)" using ok l by (simp add: state_ok_def)
  have lk: "lookup2 (element_edges g) l el = Inr ?e"
    using l' el' by (simp add: lookup2_def lookup_in_range)
  have d: "l < length dm" using dm l by simp
  show ?thesis
    unfolding slot_step_def prod.case lk ebind_Inr lookup_in_range [OF e1] o
    using m1 m2 e2 d
    by (simp add: store2_in_range lookup_in_range store_in_range)
qed

lemma finish_element_total:
  assumes inv: "inner_inv g support ibd done el [0, 1, 2] (s, dm)"
    and el: "el < number_of_elements g"
  shows "\<exists>s'. finish_element el (s, dm) = Inr s'"
proof -
  from inv have ok: "state_ok g s" and dmok: "dofmap_ok s dm"
    and recs: "\<forall>k \<in> set [0, 1, 2]. k < 3 \<and>
              slot_rec g support ibd el k (local_multipliers s ! el ! k) (dm ! k) (edge_dofs s)"
    by (simp_all add: inner_inv_def)
  have R: "slot_rec g support ibd el k (local_multipliers s ! el ! k) (dm ! k) (edge_dofs s)"
    if "k < 3" for k
    using recs that set_012 by blast
  let ?row = "local_multipliers s ! el"
  let ?nz = "flatnonzero (\<lambda>x. x \<noteq> 0) ?row"
  let ?z = "flatnonzero (\<lambda>x. x = 0) ?row"
  have m1: "el < length (local_multipliers s)" and l1: "el < length (local2global_map s)"
    using ok el by (simp_all add: state_ok_def)
  then have rowlen: "length ?row = 3" using ok by (simp add: state_ok_def)
  have len: "length dm = 3" using dmok by (simp add: dofmap_ok_def)
  show ?thesis
  proof (cases "\<forall>d \<in> set dm. d = - 1")
    case True
    then show ?thesis
      using m1 l1 by (simp add: finish_element_def store_in_range)
  next
    case False
    then obtain k where k: "k < 3" "dm ! k \<noteq> - 1"
      using len by (auto simp: in_set_conv_nth)
    from slot_rec_sign(1) [OF R [OF k(1)]] k(2) have "?row ! k \<noteq> 0" by simp
    then have "k \<in> set ?nz" using k(1) rowlen by (simp add: flatnonzero_mem)
    then have nz: "?nz \<noteq> []" by auto
    from min_list_mem [OF nz] have first: "min_list ?nz < length dm"
      using rowlen len by (simp add: flatnonzero_mem)
    have "\<forall>i \<in> set ?z. i < length dm"
      using rowlen len by (simp add: flatnonzero_mem)
    from store_all_total [OF this] obtain dm' where
      fill: "efold (\<lambda>d i. store d i (dm ! min_list ?nz)) ?z dm = Inr dm'"
      by blast
    show ?thesis
      unfolding finish_element_def prod.case if_not_P [OF False]
      using nz fill l1
      by (simp add: lookup_in_range [OF m1] lookup_in_range [OF first] Let_def
          store_in_range)
  qed
qed

lemma slot_step_el_range:
  assumes "slot_step g support ibd el (s, dm) l = Inr (s', dm')" "state_ok g s"
  shows "el < number_of_elements g"
  using assms by (cases rule: slot_step_cases) (simp_all add: state_ok_def)

text \<open>
  On a well-formed grid, with a support mask over its elements, no lookup of the loop is
  out of range: the loop ends, and the invariant holds at its end.
\<close>

lemma assign_dofs_total:
  assumes wf: "grid_wf g" and sup: "length support = number_of_elements g"
  shows "\<exists>st. assign_dofs g support ibd = Inr st"
proof -
  let ?els = "flatnonzero (\<lambda>b. b) support"
  have "\<exists>st. efold (element_step g support ibd) ?els (initial_state g) = Inr st
          \<and> outer_inv g support ibd ?els st"
  proof (rule efold_total [where I = "outer_inv g support ibd"])
    show "outer_inv g support ibd [] (initial_state g)" by (rule outer_inv_initial)
  next
    fix ys x zs t
    assume split: "?els = ys @ x # zs" and I: "outer_inv g support ibd ys t"
    have "distinct ?els" by (simp add: flatnonzero_def)
    with split have fresh: "x \<notin> set ys" by auto
    from split have "x \<in> set ?els" by simp
    then have x: "x < number_of_elements g" using sup by (simp add: flatnonzero_mem)
    have "\<exists>sd. efold (slot_step g support ibd x) [0, 1, 2] (t, [- 1, - 1, - 1]) = Inr sd
            \<and> inner_inv g support ibd ys x [0, 1, 2] sd"
    proof (rule efold_total [where I = "inner_inv g support ibd ys x"])
      show "inner_inv g support ibd ys x [] (t, [- 1, - 1, - 1])"
        using I fresh by (rule inner_inv_enter)
    next
      fix ks l ls u
      assume sp: "[0, 1, 2] = ks @ l # ls" and J: "inner_inv g support ibd ys x ks u"
      obtain s dm where u: "u = (s, dm)" by (cases u)
      have "distinct (ks @ l # ls)" unfolding sp [symmetric] by simp
      then have l1: "l \<notin> set ks" by simp
      have "l \<in> set [0::nat, 1, 2]" unfolding sp by simp
      then have l2: "l < 3" by auto
      from J have ok: "state_ok g s" and dm: "length dm = 3"
        unfolding u by (simp_all add: inner_inv_def dofmap_ok_def)
      from slot_step_total [OF wf sup ok dm x l2] obtain r where
        r: "slot_step g support ibd x (s, dm) l = Inr r" by blast
      obtain s' dm' where r': "r = (s', dm')" by (cases r)
      have "inner_inv g support ibd ys x (ks @ [l]) (s', dm')"
        using J l1 l2 r unfolding u r' by (rule inner_inv_slot)
      with r show "\<exists>u'. slot_step g support ibd x u l = Inr u'
                     \<and> inner_inv g support ibd ys x (ks @ [l]) u'"
        unfolding u r' by blast
    qed
    then obtain s dm where
      inner: "efold (slot_step g support ibd x) [0, 1, 2] (t, [- 1, - 1, - 1]) = Inr (s, dm)"
      and J: "inner_inv g support ibd ys x [0, 1, 2] (s, dm)"
      by auto
    from finish_element_total [OF J x] obtain t' where
      fin: "finish_element x (s, dm) = Inr t'" by blast
    have "outer_inv g support ibd (ys @ [x]) t'" using J fin by (rule outer_inv_finish)
    moreover have "element_step g support ibd t x = Inr t'"
      unfolding element_step_def inner using fin by simp
    ultimately show "\<exists>t'. element_step g support ibd t x = Inr t'
                       \<and> outer_inv g support ibd (ys @ [x]) t'"
      by blast
  qed
  then show ?thesis unfolding assign_dofs_def by blast
qed

section \<open>One identifier for every edge\<close>

lemma edges_inv_initial: "edges_inv ibd (initial_state g)"
  by (simp add: edges_inv_def initial_state_def)

lemma allocated_insert:
  fixes eds :: "int list"
  assumes "e < length eds" "eds ! e = - 1" "c \<noteq> - 1"
  shows "{x. x < length (eds[e := c]) \<and> eds[e := c] ! x \<noteq> - 1}
           = insert e {x. x < length eds \<and> eds ! x \<noteq> - 1}"
    and "e \<notin> {x. x < length eds \<and> eds ! x \<noteq> - 1}"
  using assms by (auto simp: nth_list_update)

lemma slot_step_edges_inv:
  assumes run: "slot_step g support ibd el (s, dm) l = Inr (s', dm')"
    and ok: "state_ok g s" and inv: "edges_inv ibd s"
  shows "edges_inv ibd s'"
  using run
proof (cases rule: slot_step_cases)
  case boundary_skip
  with inv show ?thesis by (simp add: edges_inv_def)
next
  case boundary_dof
  with inv show ?thesis by (simp add: edges_inv_def)
next
  case (old_edge other)
  with inv show ?thesis by (simp add: edges_inv_def)
next
  case (new_edge other)
  let ?e = "slot_edge g el l"
  let ?eds = "edge_dofs s"
  have c0: "0 \<le> count s" using ok by (simp add: state_ok_def)
  have below: "?eds ! x = - 1 \<or> ?eds ! x < count s" if "x < length ?eds" for x
  proof -
    have "?eds ! x \<in> set ?eds" using that by simp
    with ok show ?thesis by (auto simp: state_ok_def)
  qed
  have inj: "x = y"
    if "x < length ?eds" "y < length ?eds"
      "?eds[?e := count s] ! x = ?eds[?e := count s] ! y" "?eds[?e := count s] ! x \<noteq> - 1"
    for x y
  proof (cases "x = ?e")
    case True
    show ?thesis
    proof (rule ccontr)
      assume "x \<noteq> y"
      with True that have "?eds ! y = count s" by (simp add: nth_list_update)
      with below [OF that(2)] c0 show False by auto
    qed
  next
    case False
    show ?thesis
    proof (cases "y = ?e")
      case True
      with False that have "?eds ! x = count s" by (simp add: nth_list_update)
      with below [OF that(1)] c0 show ?thesis by auto
    next
      case ny: False
      with False that have "?eds ! x = ?eds ! y" "?eds ! x \<noteq> - 1"
        by (simp_all add: nth_list_update)
      with inv that(1,2) show ?thesis unfolding edges_inv_def by blast
    qed
  qed
  have card: "count s + 1 = int (card {x. x < length (?eds[?e := count s])
                                        \<and> ?eds[?e := count s] ! x \<noteq> - 1})"
    if "\<not> ibd"
  proof -
    have cne: "count s \<noteq> - 1" using c0 by simp
    have fin: "finite {x. x < length ?eds \<and> ?eds ! x \<noteq> - 1}" by simp
    have "card {x. x < length (?eds[?e := count s]) \<and> ?eds[?e := count s] ! x \<noteq> - 1}
            = Suc (card {x. x < length ?eds \<and> ?eds ! x \<noteq> - 1})"
      unfolding allocated_insert(1) [OF new_edge(8,9) cne]
      using allocated_insert(2) [OF new_edge(8,9) cne] fin by (rule card_insert_disjoint [rotated])
    with inv that show ?thesis by (simp add: edges_inv_def)
  qed
  show ?thesis
    unfolding edges_inv_def new_edge(12) using inj card by auto
qed

lemma finish_element_edges_inv:
  assumes "finish_element el (s, dm) = Inr s'" "edges_inv ibd s"
  shows "edges_inv ibd s'"
  using assms(2) finish_element_frame(2,3) [OF assms(1)] by (simp add: edges_inv_def)

lemma assign_dofs_edges_inv:
  assumes "assign_dofs g support ibd = Inr st"
  shows "edges_inv ibd st"
proof -
  have "state_ok g st \<and> edges_inv ibd st"
    using assms
  proof (rule assign_dofs_invariant
      [where I = "\<lambda>done s. state_ok g s \<and> edges_inv ibd s"
         and J = "\<lambda>done el ks sd. state_ok g (fst sd) \<and> dofmap_ok (fst sd) (snd sd)
                    \<and> edges_inv ibd (fst sd)"])
    show "state_ok g (initial_state g) \<and> edges_inv ibd (initial_state g)"
      using initial_state_ok edges_inv_initial by blast
  next
    fix dn el s
    assume "state_ok g s \<and> edges_inv ibd s"
    then show "state_ok g (fst (s, [- 1, - 1, - 1]))
        \<and> dofmap_ok (fst (s, [- 1, - 1, - 1])) (snd (s, [- 1, - 1, - 1]))
        \<and> edges_inv ibd (fst (s, [- 1, - 1, - 1]))"
      by (simp add: dofmap_ok_def)
  next
    fix dn el ks l s dm s' dm'
    assume "state_ok g (fst (s, dm)) \<and> dofmap_ok (fst (s, dm)) (snd (s, dm))
              \<and> edges_inv ibd (fst (s, dm))"
      and "slot_step g support ibd el (s, dm) l = Inr (s', dm')"
    then show "state_ok g (fst (s', dm')) \<and> dofmap_ok (fst (s', dm')) (snd (s', dm'))
              \<and> edges_inv ibd (fst (s', dm'))"
      using slot_step_state_ok slot_step_dofmap_ok slot_step_edges_inv by auto
  next
    fix dn el s dm s'
    assume "state_ok g (fst (s, dm)) \<and> dofmap_ok (fst (s, dm)) (snd (s, dm))
              \<and> edges_inv ibd (fst (s, dm))"
      and "finish_element el (s, dm) = Inr s'"
    then show "state_ok g s' \<and> edges_inv ibd s'"
      using finish_element_state_ok finish_element_edges_inv by auto
  qed
  then show ?thesis ..
qed

section \<open>Closed grids\<close>

lemma closed_slot_interior:
  assumes cl: "closed_grid g" and el: "el < number_of_elements g" and l: "l < 3"
  shows "\<exists>b. slot_other g (replicate (number_of_elements g) True) el l = Inr (int b)"
proof -
  let ?n = "number_of_elements g"
  let ?nbrs = "slot_neighbors g el l"
  from cl have wf: "grid_wf g" by (simp add: closed_grid_def)
  have e: "slot_edge g el l < number_of_edges g"
    using wf el l by (simp add: grid_wf_def slot_edge_def)
  with cl have len: "length ?nbrs = 2" by (simp add: closed_grid_def slot_neighbors_def)
  have "?nbrs \<in> set (edge_neighbors g)"
    using e wf by (simp add: grid_wf_def slot_neighbors_def)
  with wf have r: "\<forall>x \<in> set ?nbrs. x < ?n" by (simp add: grid_wf_def)
  from len have "?nbrs ! 0 \<in> set ?nbrs" "?nbrs ! 1 \<in> set ?nbrs" by simp_all
  with r have "?nbrs ! 0 < ?n" "?nbrs ! 1 < ?n" by simp_all
  with len show ?thesis
    by (simp add: slot_other_def find_other_def lookup_in_range)
qed

lemma closed_grid_count:
  assumes cl: "closed_grid g"
    and run: "assign_dofs g (replicate (number_of_elements g) True) False = Inr st"
  shows "count st = int (number_of_edges g)"
    and "\<forall>e<number_of_edges g. 0 \<le> edge_dofs st ! e \<and> edge_dofs st ! e < int (number_of_edges g)"
    and "distinct (edge_dofs st)"
    and "delete_from_support st = []"
proof -
  let ?n = "number_of_elements g"
  let ?sup = "replicate ?n True"
  from cl have wf: "grid_wf g" by (simp add: closed_grid_def)
  have ok: "state_ok g st" using run by (rule assign_dofs_final(1))
  have len: "length (edge_dofs st) = number_of_edges g" using ok by (simp add: state_ok_def)
  have inv: "edges_inv False st" using run by (rule assign_dofs_edges_inv)
  have alloc: "0 \<le> edge_dofs st ! e \<and> edge_dofs st ! e < count st" if e: "e < number_of_edges g" for e
  proof -
    from cl e have l2: "length (edge_neighbors g ! e) = 2"
      and has: "\<forall>x \<in> set (edge_neighbors g ! e). \<exists>l<3. element_edges g ! l ! x = e"
      by (simp_all add: closed_grid_def)
    let ?x = "edge_neighbors g ! e ! 0"
    have mem: "?x \<in> set (edge_neighbors g ! e)" using l2 by simp
    have "edge_neighbors g ! e \<in> set (edge_neighbors g)"
      using e wf by (simp add: grid_wf_def)
    with wf mem have x: "?x < ?n" by (simp add: grid_wf_def)
    from has mem obtain l where l: "l < 3" "slot_edge g ?x l = e"
      unfolding slot_edge_def by blast
    from closed_slot_interior [OF cl x l(1)] obtain b where
      o: "slot_other g ?sup ?x l = Inr (int b)" by blast
    have sx: "?x < length ?sup" "?sup ! ?x" using x by simp_all
    from interior_slot(3,4) [OF run sx l(1) o] l(2) show ?thesis by simp
  qed
  have ne: "edge_dofs st ! e \<noteq> - 1" if "e < number_of_edges g" for e
    using alloc [OF that] by simp
  have "{e. e < length (edge_dofs st) \<and> edge_dofs st ! e \<noteq> - 1} = {..<number_of_edges g}"
    using ne len by auto
  with inv show c: "count st = int (number_of_edges g)"
    by (simp add: edges_inv_def)
  show "\<forall>e<number_of_edges g. 0 \<le> edge_dofs st ! e \<and> edge_dofs st ! e < int (number_of_edges g)"
    using alloc c by simp
  show "distinct (edge_dofs st)"
    unfolding distinct_conv_nth
  proof (intro allI impI)
    fix i j assume ij: "i < length (edge_dofs st)" "j < length (edge_dofs st)" "i \<noteq> j"
    have "edge_dofs st ! i \<noteq> - 1" using alloc [of i] ij(1) len by simp
    with inv ij show "edge_dofs st ! i \<noteq> edge_dofs st ! j"
      unfolding edges_inv_def by blast
  qed
  have "el \<notin> set (delete_from_support st)" for el
  proof
    assume d: "el \<in> set (delete_from_support st)"
    with assign_dofs_final(4) [OF run] have el: "el < length ?sup" "?sup ! el" by auto
    then have eln: "el < ?n" by simp
    from closed_slot_interior [OF cl eln, of 0] obtain b where
      o: "slot_other g ?sup el 0 = Inr (int b)" by auto
    have "local_multipliers st ! el ! 0 \<noteq> 0"
      using interior_slot(1) [OF run el _ o] by simp
    moreover have "row_fill st el"
      using assign_dofs_final(2) [OF run el] by (simp add: row_ok_def)
    ultimately show False
      using d unfolding row_fill_def by (auto split: if_splits)
  qed
  then show "delete_from_support st = []" by (cases "delete_from_support st") auto
qed

lemma closed_grid_dofs:
  assumes cl: "closed_grid g"
  shows "\<exists>st. assign_dofs g (replicate (number_of_elements g) True) False = Inr st
      \<and> count st = int (number_of_edges g)
      \<and> (\<forall>e<number_of_edges g.
            0 \<le> edge_dofs st ! e \<and> edge_dofs st ! e < int (number_of_edges g))
      \<and> distinct (edge_dofs st)
      \<and> (0 < number_of_elements g \<longrightarrow>
            (\<exists>sp. rwg0_init g (replicate (number_of_elements g) True) False = Inr sp
                \<and> global_dof_count sp = int (number_of_edges g)))"
proof -
  let ?sup = "replicate (number_of_elements g) True"
  from cl have wf: "grid_wf g" by (simp add: closed_grid_def)
  from assign_dofs_total [OF wf, of ?sup False] obtain st where
    run: "assign_dofs g ?sup False = Inr st" by auto
  note c = closed_grid_count [OF cl run]
  have sh: "shrink_support ?sup (delete_from_support st) = Inr ?sup"
    unfolding c(4) by (simp add: shrink_support_def)
  have "\<exists>sp. rwg0_init g ?sup False = Inr sp \<and> global_dof_count sp = int (number_of_edges g)"
    if "0 < number_of_elements g"
    using that run sh c(1) by (simp add: rwg0_init_def support_size_def)
  then have "0 < number_of_elements g \<longrightarrow>
      (\<exists>sp. rwg0_init g ?sup False = Inr sp \<and> global_dof_count sp = int (number_of_edges g))"
    by (rule impI)
  with run c(1,2,3) show ?thesis
    by (intro exI [of _ st] conjI)
qed

text \<open>
  Claim C5. On a closed grid, with every element in the support and without boundary
  DOFs, the loop ends with the counter at the number of edges: every edge has an
  identifier below that number, no two edges share one, and the constructor (on a grid
  with an element) returns a space whose global DOF count is the number of edges.
\<close>

theorem closed_grid_dof_count:
  assumes "closed_grid g"
  shows "\<exists>st. assign_dofs g (replicate (number_of_elements g) True) False = Inr st
      \<and> count st = int (number_of_edges g)
      \<and> (\<forall>e<number_of_edges g.
            0 \<le> edge_dofs st ! e \<and> edge_dofs st ! e < int (number_of_edges g))
      \<and> distinct (edge_dofs st)
      \<and> (0 < number_of_elements g \<longrightarrow>
            (\<exists>sp. rwg0_init g (replicate (number_of_elements g) True) False = Inr sp
                \<and> global_dof_count sp = int (number_of_edges g)))"
  using assms by (rule closed_grid_dofs)

lemma closed_grid_tetrahedron: "closed_grid tetrahedron"
  by (simp add: closed_grid_def grid_wf_def tetrahedron_def eval_nat_numeral
      All_less_Suc Ex_less_Suc)

lemma rwg0_init_tetrahedron:
  "rwg0_init tetrahedron [True, True, True, True] False =
     Inr \<lparr>sp_grid = tetrahedron, global_dof_count = 6,
          local2global = [[0, 1, 2], [0, 3, 4], [1, 3, 5], [2, 4, 5]],
          multipliers = [[1, 1, 1], [- 1, 1, 1], [- 1, - 1, 1], [- 1, - 1, - 1]],
          sp_support = [True, True, True, True], number_of_shape_functions = 3\<rparr>"
  by code_simp

text \<open>The surface of the tetrahedron: four triangles, six edges, six DOFs.\<close>

theorem closed_grid_dof_count_witness:
  "closed_grid tetrahedron \<and> 0 < number_of_elements tetrahedron
   \<and> rwg0_init tetrahedron (replicate (number_of_elements tetrahedron) True) False =
     Inr \<lparr>sp_grid = tetrahedron, global_dof_count = 6,
          local2global = [[0, 1, 2], [0, 3, 4], [1, 3, 5], [2, 4, 5]],
          multipliers = [[1, 1, 1], [- 1, 1, 1], [- 1, - 1, 1], [- 1, - 1, - 1]],
          sp_support = [True, True, True, True], number_of_shape_functions = 3\<rparr>
   \<and> (6::int) = int (number_of_edges tetrahedron)"
proof -
  have n: "0 < number_of_elements tetrahedron"
    and r: "replicate (number_of_elements tetrahedron) True = [True, True, True, True]"
    by (simp_all add: tetrahedron_def eval_nat_numeral)
  from closed_grid_dof_count [OF closed_grid_tetrahedron] n
  obtain sp where
    "rwg0_init tetrahedron (replicate (number_of_elements tetrahedron) True) False = Inr sp"
    "global_dof_count sp = int (number_of_edges tetrahedron)"
    by blast
  then have "(6::int) = int (number_of_edges tetrahedron)"
    unfolding r rwg0_init_tetrahedron by auto
  then show ?thesis
    using closed_grid_tetrahedron n rwg0_init_tetrahedron unfolding r by simp
qed

section \<open>The identifiers in use\<close>

lemma used_slot_frame:
  assumes "frame el s s'" "el \<notin> set dn"
  shows "used_slot s' dn el' l' \<longleftrightarrow> used_slot s dn el' l'"
    and "used_slot s dn el' l' \<Longrightarrow>
           local2global_map s' ! el' ! l' = local2global_map s ! el' ! l'"
proof -
  have fr: "\<forall>i. i \<noteq> el \<longrightarrow> local_multipliers s' ! i = local_multipliers s ! i
                    \<and> local2global_map s' ! i = local2global_map s ! i"
    using assms(1) by (simp add: frame_def)
  have m: "local_multipliers s' ! el' = local_multipliers s ! el'"
    and l: "local2global_map s' ! el' = local2global_map s ! el'"
    if "el' \<in> set dn"
    using that fr assms(2) by auto
  show "used_slot s' dn el' l' \<longleftrightarrow> used_slot s dn el' l'"
    unfolding used_slot_def using m by auto
  show "used_slot s dn el' l' \<Longrightarrow>
           local2global_map s' ! el' ! l' = local2global_map s ! el' ! l'"
    unfolding used_slot_def using l by simp
qed

lemma used_slot_id_bound:
  assumes "used_slot s dn el l" "\<forall>el' \<in> set dn. row_ok g support ibd s el'"
  shows "int (local2global_map s ! el ! l) < count s"
proof -
  from assms have "slot_done g support ibd s el l" "local_multipliers s ! el ! l \<noteq> 0"
    by (simp_all add: used_slot_def row_ok_def)
  then show ?thesis by (rule slot_done_id_bound)
qed

lemma edge_dofs_below:
  assumes "state_ok g s" "e < length (edge_dofs s)"
  shows "edge_dofs s ! e = - 1 \<or> (0 \<le> edge_dofs s ! e \<and> edge_dofs s ! e < count s)"
proof -
  have "edge_dofs s ! e \<in> set (edge_dofs s)" using assms(2) by simp
  with assms(1) show ?thesis by (auto simp: state_ok_def)
qed

lemma dofmap_below:
  assumes "dofmap_ok s dm" "l < 3"
  shows "dm ! l = - 1 \<or> (0 \<le> dm ! l \<and> dm ! l < count s)"
proof -
  have "dm ! l \<in> set dm" using assms by (simp add: dofmap_ok_def)
  with assms(1) show ?thesis by (auto simp: dofmap_ok_def)
qed

lemma ids_inner_enter:
  assumes "ids_inv g support dn s"
  shows "ids_inner g support dn el [] (s, [- 1, - 1, - 1])"
proof -
  from assms have cov: "\<forall>d. 0 \<le> d \<and> d < count s \<longrightarrow>
        (\<exists>el l. used_slot s dn el l \<and> local2global_map s ! el ! l = to_uint32 d)"
    and rest: "count s \<le> 2 ^ 32 \<longrightarrow>
          (\<forall>el l e. used_slot s dn el l \<and> boundary_slot g support el l
                \<and> e < length (edge_dofs s)
              \<longrightarrow> edge_dofs s ! e \<noteq> int (local2global_map s ! el ! l))
        \<and> (\<forall>el l el' l'. used_slot s dn el l \<and> used_slot s dn el' l'
                \<and> boundary_slot g support el l \<and> boundary_slot g support el' l'
                \<and> local2global_map s ! el ! l = local2global_map s ! el' ! l'
              \<longrightarrow> el = el' \<and> l = l')"
    unfolding ids_inv_def by blast+
  show ?thesis
    unfolding ids_inner_def prod.case list.set ball_empty
    using cov rest by blast
qed

lemma slot_step_summary:
  assumes run: "slot_step g support ibd el (s, dm) l = Inr (s', dm')"
    and unset: "dm ! l = - 1"
  shows "count s' = count s \<or> (count s' = count s + 1 \<and> dm' ! l = count s)"
    and "length (edge_dofs s') = length (edge_dofs s)"
    and "\<forall>e<length (edge_dofs s). edge_dofs s' ! e = edge_dofs s ! e
            \<or> (edge_dofs s' ! e = count s \<and> count s' = count s + 1)"
    and "boundary_slot g support el l \<longrightarrow>
           dm' ! l = - 1
           \<or> (dm' ! l = count s \<and> count s' = count s + 1 \<and> edge_dofs s' = edge_dofs s)"
proof -
  show "count s' = count s \<or> (count s' = count s + 1 \<and> dm' ! l = count s)"
    using run by (cases rule: slot_step_cases) simp_all
  show "length (edge_dofs s') = length (edge_dofs s)"
    using run by (cases rule: slot_step_cases) simp_all
  show "\<forall>e<length (edge_dofs s). edge_dofs s' ! e = edge_dofs s ! e
            \<or> (edge_dofs s' ! e = count s \<and> count s' = count s + 1)"
    using run by (cases rule: slot_step_cases) (simp_all add: nth_list_update)
  show "boundary_slot g support el l \<longrightarrow>
           dm' ! l = - 1
           \<or> (dm' ! l = count s \<and> count s' = count s + 1 \<and> edge_dofs s' = edge_dofs s)"
    using run unset by (cases rule: slot_step_cases) (simp_all add: boundary_slot_def)
qed

lemma ids_inner_slot:
  assumes inv: "inner_inv g support ibd dn el ks (s, dm)"
    and ids: "ids_inner g support dn el ks (s, dm)"
    and fresh: "l \<notin> set ks" and l3: "l < 3"
    and run: "slot_step g support ibd el (s, dm) l = Inr (s', dm')"
  shows "ids_inner g support dn el (ks @ [l]) (s', dm')"
proof -
  from inv have ok: "state_ok g s" and dmok: "dofmap_ok s dm"
    and rows: "\<forall>el' \<in> set dn. row_ok g support ibd s el'"
    and eld: "el \<notin> set dn"
    and unset: "\<forall>k<3. k \<notin> set ks \<longrightarrow> dm ! k = - 1"
    and ks3: "\<forall>k \<in> set ks. k < 3"
    by (simp_all add: inner_inv_def)
  have dml: "dm ! l = - 1" using unset fresh l3 by simp
  note fr = slot_step_frame [OF run]
  note S = slot_step_summary [OF run dml]
  have mono: "count s \<le> count s'" using run by (rule slot_step_count_mono)
  have c0: "0 \<le> count s" using ok by (simp add: state_ok_def)
  have U: "used_slot s' dn a b \<longleftrightarrow> used_slot s dn a b" for a b
    using fr(1) eld by (rule used_slot_frame(1))
  have L: "local2global_map s' = local2global_map s" by (rule fr(2))
  have old: "dm' ! k = dm ! k" if "k \<in> set ks" for k
    using fr(5) that fresh by auto
  have dmb: "dm ! k = - 1 \<or> (0 \<le> dm ! k \<and> dm ! k < count s)" if "k \<in> set ks" for k
    using dmok ks3 that by (intro dofmap_below) auto
  have idb: "int (local2global_map s ! a ! b) < count s" if "used_slot s dn a b" for a b
    using that rows by (rule used_slot_id_bound)
  note cov = ids [unfolded ids_inner_def prod.case, THEN conjunct1]
  have cov': "(\<exists>el' l'. used_slot s' dn el' l' \<and> local2global_map s' ! el' ! l' = to_uint32 d)
           \<or> (\<exists>k \<in> set (ks @ [l]). dm' ! k = d)"
    if d: "0 \<le> d" "d < count s'" for d
  proof (cases "d < count s")
    case True
    with cov d(1) consider
      (u) a b where "used_slot s dn a b" "local2global_map s ! a ! b = to_uint32 d"
      | (k) k where "k \<in> set ks" "dm ! k = d"
      by blast
    then show ?thesis
    proof cases
      case u
      then show ?thesis unfolding U L by blast
    next
      case k
      then have "k \<in> set (ks @ [l])" "dm' ! k = d" using old by simp_all
      then show ?thesis by blast
    qed
  next
    case False
    with S(1) d(2) have "dm' ! l = d" by auto
    then show ?thesis by auto
  qed
  have rest': "(\<forall>el' l' e. used_slot s' dn el' l' \<and> boundary_slot g support el' l'
                   \<and> e < length (edge_dofs s')
                 \<longrightarrow> edge_dofs s' ! e \<noteq> int (local2global_map s' ! el' ! l'))
           \<and> (\<forall>el1 l1 el2 l2. used_slot s' dn el1 l1 \<and> used_slot s' dn el2 l2
                   \<and> boundary_slot g support el1 l1 \<and> boundary_slot g support el2 l2
                   \<and> local2global_map s' ! el1 ! l1 = local2global_map s' ! el2 ! l2
                 \<longrightarrow> el1 = el2 \<and> l1 = l2)
           \<and> (\<forall>k \<in> set (ks @ [l]). \<forall>e<length (edge_dofs s').
                 boundary_slot g support el k \<longrightarrow> dm' ! k \<noteq> - 1 \<longrightarrow> edge_dofs s' ! e \<noteq> dm' ! k)
           \<and> (\<forall>k \<in> set (ks @ [l]). \<forall>el' l'. boundary_slot g support el k \<and> dm' ! k \<noteq> - 1
                   \<and> used_slot s' dn el' l' \<and> boundary_slot g support el' l'
                 \<longrightarrow> int (local2global_map s' ! el' ! l') \<noteq> dm' ! k)
           \<and> (\<forall>k \<in> set (ks @ [l]). \<forall>k' \<in> set (ks @ [l]). boundary_slot g support el k
                   \<and> boundary_slot g support el k' \<and> dm' ! k = dm' ! k' \<and> dm' ! k \<noteq> - 1
                 \<longrightarrow> k = k')"
    if small: "count s' \<le> 2 ^ 32"
  proof -
    have small_s: "count s \<le> 2 ^ 32" using small mono by simp
    note c = ids [unfolded ids_inner_def prod.case, THEN conjunct2, THEN mp, OF small_s]
    note c1 = c [THEN conjunct1]
    note c2 = c [THEN conjunct2, THEN conjunct1]
    note c3 = c [THEN conjunct2, THEN conjunct2, THEN conjunct1]
    note c4 = c [THEN conjunct2, THEN conjunct2, THEN conjunct2, THEN conjunct1]
    note c5 = c [THEN conjunct2, THEN conjunct2, THEN conjunct2, THEN conjunct2]
    have P1: "\<And>a b e. used_slot s dn a b \<Longrightarrow> boundary_slot g support a b
              \<Longrightarrow> e < length (edge_dofs s)
              \<Longrightarrow> edge_dofs s ! e \<noteq> int (local2global_map s ! a ! b)"
      using c1 by blast
    have P2: "\<And>a b a' b'. used_slot s dn a b \<Longrightarrow> used_slot s dn a' b'
              \<Longrightarrow> boundary_slot g support a b \<Longrightarrow> boundary_slot g support a' b'
              \<Longrightarrow> local2global_map s ! a ! b = local2global_map s ! a' ! b'
              \<Longrightarrow> a = a' \<and> b = b'"
      using c2 by blast
    have V2: "\<And>k e. k \<in> set ks \<Longrightarrow> e < length (edge_dofs s)
              \<Longrightarrow> boundary_slot g support el k \<Longrightarrow> dm ! k \<noteq> - 1
              \<Longrightarrow> edge_dofs s ! e \<noteq> dm ! k"
      using c3 by blast
    have V3: "\<And>k a b. k \<in> set ks \<Longrightarrow> boundary_slot g support el k \<Longrightarrow> dm ! k \<noteq> - 1
              \<Longrightarrow> used_slot s dn a b \<Longrightarrow> boundary_slot g support a b
              \<Longrightarrow> int (local2global_map s ! a ! b) \<noteq> dm ! k"
      using c4 by blast
    have V4: "\<And>k k'. k \<in> set ks \<Longrightarrow> k' \<in> set ks \<Longrightarrow> boundary_slot g support el k
              \<Longrightarrow> boundary_slot g support el k' \<Longrightarrow> dm ! k = dm ! k' \<Longrightarrow> dm ! k \<noteq> - 1
              \<Longrightarrow> k = k'"
      using c5 by blast
    have newb: "dm' ! l = count s \<and> count s' = count s + 1 \<and> edge_dofs s' = edge_dofs s"
      if "boundary_slot g support el l" "dm' ! l \<noteq> - 1"
      using S(4) that by blast
    have Q1: "edge_dofs s' ! e \<noteq> int (local2global_map s' ! a ! b)"
      if "used_slot s' dn a b" "boundary_slot g support a b" "e < length (edge_dofs s')"
      for a b e
    proof -
      have u: "used_slot s dn a b" using that(1) U by simp
      have e: "e < length (edge_dofs s)" using that(3) S(2) by simp
      from S(3) e consider "edge_dofs s' ! e = edge_dofs s ! e" | "edge_dofs s' ! e = count s"
        by blast
      then show ?thesis
      proof cases
        case 1
        with P1 [OF u that(2) e] show ?thesis unfolding L by simp
      next
        case 2
        with idb [OF u] show ?thesis unfolding L by simp
      qed
    qed
    have Q2: "a = a' \<and> b = b'"
      if "used_slot s' dn a b" "used_slot s' dn a' b'" "boundary_slot g support a b"
        "boundary_slot g support a' b'"
        "local2global_map s' ! a ! b = local2global_map s' ! a' ! b'"
      for a b a' b'
      using P2 [of a b a' b'] that unfolding U L by blast
    have W2: "edge_dofs s' ! e \<noteq> dm' ! k"
      if "k \<in> set (ks @ [l])" "e < length (edge_dofs s')" "boundary_slot g support el k"
        "dm' ! k \<noteq> - 1"
      for k e
    proof (cases "k = l")
      case True
      from newb that(3,4) True have n: "dm' ! l = count s" "edge_dofs s' = edge_dofs s"
        by simp_all
      from edge_dofs_below [OF ok] that(2) n(2)
      have "edge_dofs s ! e = - 1 \<or> edge_dofs s ! e < count s" by auto
      with n c0 True show ?thesis by auto
    next
      case False
      with that(1) have k: "k \<in> set ks" by simp
      have e: "e < length (edge_dofs s)" using that(2) S(2) by simp
      have dk: "dm' ! k = dm ! k" using old [OF k] .
      from S(3) e consider "edge_dofs s' ! e = edge_dofs s ! e" | "edge_dofs s' ! e = count s"
        by blast
      then show ?thesis
      proof cases
        case 1
        with V2 [OF k e that(3)] that(4) dk show ?thesis by simp
      next
        case 2
        with dmb [OF k] dk that(4) show ?thesis by auto
      qed
    qed
    have W3: "int (local2global_map s' ! a ! b) \<noteq> dm' ! k"
      if "k \<in> set (ks @ [l])" "boundary_slot g support el k" "dm' ! k \<noteq> - 1"
        "used_slot s' dn a b" "boundary_slot g support a b"
      for k a b
    proof (cases "k = l")
      case True
      from newb that(2,3) True have "dm' ! l = count s" by simp
      with idb [of a b] that(4) True show ?thesis unfolding U L by auto
    next
      case False
      with that(1) have k: "k \<in> set ks" by simp
      from V3 [OF k that(2) _ _ that(5), of ] that(3,4) old [OF k]
      show ?thesis unfolding U L by simp
    qed
    have W4: "k = k'"
      if "k \<in> set (ks @ [l])" "k' \<in> set (ks @ [l])" "boundary_slot g support el k"
        "boundary_slot g support el k'" "dm' ! k = dm' ! k'" "dm' ! k \<noteq> - 1"
      for k k'
    proof (cases "k = l")
      case kl: True
      show ?thesis
      proof (cases "k' = l")
        case True
        with kl show ?thesis by simp
      next
        case False
        with that(2) have k': "k' \<in> set ks" by simp
        from newb that(3,6) kl have "dm' ! k = count s" by simp
        with that(5) old [OF k'] dmb [OF k'] c0 show ?thesis by auto
      qed
    next
      case nk: False
      with that(1) have k: "k \<in> set ks" by simp
      show ?thesis
      proof (cases "k' = l")
        case True
        from newb [OF _ ] that(4,5,6) True have "dm' ! k' = count s" by simp
        with that(5) old [OF k] dmb [OF k] c0 show ?thesis by auto
      next
        case False
        with that(2) have k': "k' \<in> set ks" by simp
        from V4 [OF k k' that(3,4)] that(5,6) old [OF k] old [OF k'] show ?thesis by simp
      qed
    qed
    show ?thesis
    proof (intro conjI allI ballI impI)
      fix a b e
      assume "used_slot s' dn a b \<and> boundary_slot g support a b \<and> e < length (edge_dofs s')"
      then show "edge_dofs s' ! e \<noteq> int (local2global_map s' ! a ! b)"
        using Q1 by blast
    next
      fix a b a' b'
      assume h: "used_slot s' dn a b \<and> used_slot s' dn a' b'
          \<and> boundary_slot g support a b \<and> boundary_slot g support a' b'
          \<and> local2global_map s' ! a ! b = local2global_map s' ! a' ! b'"
      from h show "a = a'" using Q2 [of a b a' b'] by blast
      from h show "b = b'" using Q2 [of a b a' b'] by blast
    next
      fix k e
      assume "k \<in> set (ks @ [l])" "e < length (edge_dofs s')" "boundary_slot g support el k"
        "dm' ! k \<noteq> - 1"
      then show "edge_dofs s' ! e \<noteq> dm' ! k" by (rule W2)
    next
      fix k a b
      assume "k \<in> set (ks @ [l])"
        and "boundary_slot g support el k \<and> dm' ! k \<noteq> - 1
          \<and> used_slot s' dn a b \<and> boundary_slot g support a b"
      then show "int (local2global_map s' ! a ! b) \<noteq> dm' ! k"
        using W3 [of k a b] by blast
    next
      fix k k'
      assume "k \<in> set (ks @ [l])" "k' \<in> set (ks @ [l])"
        and "boundary_slot g support el k \<and> boundary_slot g support el k'
          \<and> dm' ! k = dm' ! k' \<and> dm' ! k \<noteq> - 1"
      then show "k = k'" using W4 [of k k'] by blast
    qed
  qed
  show ?thesis
    unfolding ids_inner_def prod.case
  proof (rule conjI)
    show "\<forall>d. 0 \<le> d \<and> d < count s' \<longrightarrow>
        (\<exists>el' l'. used_slot s' dn el' l' \<and> local2global_map s' ! el' ! l' = to_uint32 d)
        \<or> (\<exists>l \<in> set (ks @ [l]). dm' ! l = d)"
      using cov' by blast
  next
    show "count s' \<le> 2 ^ 32 \<longrightarrow> ((\<forall>el' l' e. used_slot s' dn el' l' \<and> boundary_slot g support el' l'
                   \<and> e < length (edge_dofs s')
                 \<longrightarrow> edge_dofs s' ! e \<noteq> int (local2global_map s' ! el' ! l'))
           \<and> (\<forall>el1 l1 el2 l2. used_slot s' dn el1 l1 \<and> used_slot s' dn el2 l2
                   \<and> boundary_slot g support el1 l1 \<and> boundary_slot g support el2 l2
                   \<and> local2global_map s' ! el1 ! l1 = local2global_map s' ! el2 ! l2
                 \<longrightarrow> el1 = el2 \<and> l1 = l2)
           \<and> (\<forall>k \<in> set (ks @ [l]). \<forall>e<length (edge_dofs s').
                 boundary_slot g support el k \<longrightarrow> dm' ! k \<noteq> - 1 \<longrightarrow> edge_dofs s' ! e \<noteq> dm' ! k)
           \<and> (\<forall>k \<in> set (ks @ [l]). \<forall>el' l'. boundary_slot g support el k \<and> dm' ! k \<noteq> - 1
                   \<and> used_slot s' dn el' l' \<and> boundary_slot g support el' l'
                 \<longrightarrow> int (local2global_map s' ! el' ! l') \<noteq> dm' ! k)
           \<and> (\<forall>k \<in> set (ks @ [l]). \<forall>k' \<in> set (ks @ [l]). boundary_slot g support el k
                   \<and> boundary_slot g support el k' \<and> dm' ! k = dm' ! k' \<and> dm' ! k \<noteq> - 1
                 \<longrightarrow> k = k'))"
      using rest' by (rule impI)
  qed
qed

lemma finish_element_new_slots:
  assumes inv: "inner_inv g support ibd dn el [0, 1, 2] (s, dm)"
    and run: "finish_element el (s, dm) = Inr s'"
    and b: "b < 3"
  shows "local_multipliers s' ! el ! b \<noteq> 0 \<longleftrightarrow> dm ! b \<noteq> - 1"
    and "dm ! b \<noteq> - 1 \<Longrightarrow> local2global_map s' ! el ! b = to_uint32 (dm ! b)"
    and "dm ! b \<noteq> - 1 \<Longrightarrow> 0 \<le> dm ! b \<and> dm ! b < count s"
proof -
  from inv have ok: "state_ok g s" and dmok: "dofmap_ok s dm"
    and recs: "\<forall>k \<in> set [0, 1, 2]. k < 3 \<and>
              slot_rec g support ibd el k (local_multipliers s ! el ! k) (dm ! k) (edge_dofs s)"
    by (simp_all add: inner_inv_def)
  have R: "slot_rec g support ibd el k (local_multipliers s ! el ! k) (dm ! k) (edge_dofs s)"
    if "k < 3" for k
    using recs that set_012 by blast
  have sign: "local_multipliers s ! el ! b = 0 \<longleftrightarrow> dm ! b = - 1"
    using slot_rec_sign(1) [OF R [OF b]] .
  have len: "length dm = 3" using dmok by (simp add: dofmap_ok_def)
  show "dm ! b \<noteq> - 1 \<Longrightarrow> 0 \<le> dm ! b \<and> dm ! b < count s"
    using dofmap_below [OF dmok b] by auto
  have "(local_multipliers s' ! el ! b \<noteq> 0 \<longleftrightarrow> dm ! b \<noteq> - 1)
      \<and> (dm ! b \<noteq> - 1 \<longrightarrow> local2global_map s' ! el ! b = to_uint32 (dm ! b))"
    using run
  proof (cases rule: finish_element_cases)
    case drop
    have "dm ! b = - 1" using drop(1) b len by simp
    moreover have "local_multipliers s' ! el ! b = 0"
      using drop(2,4) b by (simp add: nth_zero_row)
    ultimately show ?thesis by simp
  next
    case (keep dm')
    have rowlen: "length (local_multipliers s ! el) = 3"
      using ok keep(2) by (simp add: state_ok_def)
    have m: "local_multipliers s' ! el = local_multipliers s ! el"
      using keep(8) by simp
    have l: "local2global_map s' ! el ! b = to_uint32 (dm' ! b)"
      using keep(3,6,8) b len by simp
    have "dm' ! b = dm ! b" if "dm ! b \<noteq> - 1"
      using keep(7) b len rowlen sign that by (simp add: flatnonzero_mem)
    with m l sign show ?thesis by simp
  qed
  then show "local_multipliers s' ! el ! b \<noteq> 0 \<longleftrightarrow> dm ! b \<noteq> - 1"
    and "dm ! b \<noteq> - 1 \<Longrightarrow> local2global_map s' ! el ! b = to_uint32 (dm ! b)"
    by simp_all
qed

lemma ids_inv_finish:
  assumes inv: "inner_inv g support ibd dn el [0, 1, 2] (s, dm)"
    and ids: "ids_inner g support dn el [0, 1, 2] (s, dm)"
    and run: "finish_element el (s, dm) = Inr s'"
  shows "ids_inv g support (dn @ [el]) s'"
proof -
  from inv have eld: "el \<notin> set dn" by (simp add: inner_inv_def)
  note fr = finish_element_frame [OF run]
  note nw = finish_element_new_slots [OF inv run]
  have U: "used_slot s' dn a b \<longleftrightarrow> used_slot s dn a b" for a b
    using fr(1) eld by (rule used_slot_frame(1))
  have L: "local2global_map s' ! a ! b = local2global_map s ! a ! b" if "used_slot s dn a b" for a b
    using fr(1) eld that by (rule used_slot_frame(2))
  have split: "used_slot s' (dn @ [el]) a b \<longleftrightarrow>
      used_slot s dn a b \<or> (a = el \<and> b < 3 \<and> dm ! b \<noteq> - 1)" for a b
  proof (cases "a = el")
    case True
    with eld nw(1) [of b] show ?thesis by (auto simp: used_slot_def)
  next
    case False
    have "used_slot s' (dn @ [el]) a b \<longleftrightarrow> used_slot s' dn a b"
      using False by (simp add: used_slot_def)
    with U False show ?thesis by simp
  qed
  note cov = ids [unfolded ids_inner_def prod.case, THEN conjunct1]
  have cov': "\<exists>a b. used_slot s' (dn @ [el]) a b \<and> local2global_map s' ! a ! b = to_uint32 d"
    if d: "0 \<le> d" "d < count s'" for d
  proof -
    from d fr(3) have "0 \<le> d \<and> d < count s" by simp
    with cov have "(\<exists>a b. used_slot s dn a b \<and> local2global_map s ! a ! b = to_uint32 d)
        \<or> (\<exists>k \<in> set [0, 1, 2]. dm ! k = d)"
      by blast
    then consider
      (u) a b where "used_slot s dn a b" "local2global_map s ! a ! b = to_uint32 d"
      | (k) k where "k \<in> set [0, 1, 2 :: nat]" "dm ! k = d"
      by blast
    then show ?thesis
    proof cases
      case u
      with L [OF u(1)] split [of a b] show ?thesis by auto
    next
      case k
      then have k3: "k < 3" using set_012 by blast
      have ne: "dm ! k \<noteq> - 1" using k(2) d(1) by simp
      from nw(2) [OF k3 ne] split [of el k] k3 ne k(2) show ?thesis by auto
    qed
  qed
  have rest': "(\<forall>a b e. used_slot s' (dn @ [el]) a b \<and> boundary_slot g support a b
                \<and> e < length (edge_dofs s')
              \<longrightarrow> edge_dofs s' ! e \<noteq> int (local2global_map s' ! a ! b))
        \<and> (\<forall>a b a' b'. used_slot s' (dn @ [el]) a b \<and> used_slot s' (dn @ [el]) a' b'
                \<and> boundary_slot g support a b \<and> boundary_slot g support a' b'
                \<and> local2global_map s' ! a ! b = local2global_map s' ! a' ! b'
              \<longrightarrow> a = a' \<and> b = b')"
    if small: "count s' \<le> 2 ^ 32"
  proof -
    have small_s: "count s \<le> 2 ^ 32" using small fr(3) by simp
    note c = ids [unfolded ids_inner_def prod.case, THEN conjunct2, THEN mp, OF small_s]
    note c1 = c [THEN conjunct1]
    note c2 = c [THEN conjunct2, THEN conjunct1]
    note c3 = c [THEN conjunct2, THEN conjunct2, THEN conjunct1]
    note c4 = c [THEN conjunct2, THEN conjunct2, THEN conjunct2, THEN conjunct1]
    note c5 = c [THEN conjunct2, THEN conjunct2, THEN conjunct2, THEN conjunct2]
    have P1: "\<And>a b e. used_slot s dn a b \<Longrightarrow> boundary_slot g support a b
              \<Longrightarrow> e < length (edge_dofs s)
              \<Longrightarrow> edge_dofs s ! e \<noteq> int (local2global_map s ! a ! b)"
      using c1 by blast
    have P2: "\<And>a b a' b'. used_slot s dn a b \<Longrightarrow> used_slot s dn a' b'
              \<Longrightarrow> boundary_slot g support a b \<Longrightarrow> boundary_slot g support a' b'
              \<Longrightarrow> local2global_map s ! a ! b = local2global_map s ! a' ! b'
              \<Longrightarrow> a = a' \<and> b = b'"
      using c2 by blast
    have V2: "\<And>k e. k < 3 \<Longrightarrow> e < length (edge_dofs s)
              \<Longrightarrow> boundary_slot g support el k \<Longrightarrow> dm ! k \<noteq> - 1
              \<Longrightarrow> edge_dofs s ! e \<noteq> dm ! k"
      using c3 set_012 by blast
    have V3: "\<And>k a b. k < 3 \<Longrightarrow> boundary_slot g support el k \<Longrightarrow> dm ! k \<noteq> - 1
              \<Longrightarrow> used_slot s dn a b \<Longrightarrow> boundary_slot g support a b
              \<Longrightarrow> int (local2global_map s ! a ! b) \<noteq> dm ! k"
      using c4 set_012 by blast
    have V4: "\<And>k k'. k < 3 \<Longrightarrow> k' < 3 \<Longrightarrow> boundary_slot g support el k
              \<Longrightarrow> boundary_slot g support el k' \<Longrightarrow> dm ! k = dm ! k' \<Longrightarrow> dm ! k \<noteq> - 1
              \<Longrightarrow> k = k'"
      using c5 set_012 by blast
    have newid: "int (local2global_map s' ! el ! b) = dm ! b" if "b < 3" "dm ! b \<noteq> - 1" for b
    proof -
      from nw(3) [OF that] small_s have "0 \<le> dm ! b" "dm ! b < 2 ^ 32" by simp_all
      then have "int (to_uint32 (dm ! b)) = dm ! b" by (rule to_uint32_small)
      with nw(2) [OF that] show ?thesis by simp
    qed
    have Q1: "edge_dofs s' ! e \<noteq> int (local2global_map s' ! a ! b)"
      if "used_slot s' (dn @ [el]) a b" "boundary_slot g support a b"
        "e < length (edge_dofs s')" for a b e
    proof -
      from that(1) split [of a b] consider
        (old) "used_slot s dn a b" | (new) "a = el" "b < 3" "dm ! b \<noteq> - 1"
        by blast
      then show ?thesis
      proof cases
        case old
        from P1 [OF old that(2)] that(3) L [OF old] show ?thesis unfolding fr(2) by simp
      next
        case new
        from V2 [OF new(2) _ _ new(3)] that(2,3) new(1) newid [OF new(2,3)]
        show ?thesis unfolding fr(2) by simp
      qed
    qed
    have Q2: "a = a' \<and> b = b'"
      if h: "used_slot s' (dn @ [el]) a b" "used_slot s' (dn @ [el]) a' b'"
        "boundary_slot g support a b" "boundary_slot g support a' b'"
        "local2global_map s' ! a ! b = local2global_map s' ! a' ! b'" for a b a' b'
    proof -
      from h(1) split [of a b] consider
        (old) "used_slot s dn a b" | (new) "a = el" "b < 3" "dm ! b \<noteq> - 1"
        by blast
      then show ?thesis
      proof cases
        case old
        from h(2) split [of a' b'] consider
          (old') "used_slot s dn a' b'" | (new') "a' = el" "b' < 3" "dm ! b' \<noteq> - 1"
          by blast
        then show ?thesis
        proof cases
          case old'
          from P2 [OF old old' h(3,4)] h(5) L [OF old] L [OF old'] show ?thesis by simp
        next
          case new'
          from V3 [OF new'(2) _ new'(3) old h(3)] h(4) new'(1)
          have "int (local2global_map s ! a ! b) \<noteq> dm ! b'" by simp
          with h(5) L [OF old] newid [OF new'(2,3)] new'(1) show ?thesis by simp
        qed
      next
        case new
        from h(2) split [of a' b'] consider
          (old') "used_slot s dn a' b'" | (new') "a' = el" "b' < 3" "dm ! b' \<noteq> - 1"
          by blast
        then show ?thesis
        proof cases
          case old'
          from V3 [OF new(2) _ new(3) old' h(4)] h(3) new(1)
          have "int (local2global_map s ! a' ! b') \<noteq> dm ! b" by simp
          with h(5) L [OF old'] newid [OF new(2,3)] new(1) show ?thesis by simp
        next
          case new'
          from h(5) new(1) new'(1) newid [OF new(2,3)] newid [OF new'(2,3)]
          have "dm ! b = dm ! b'" by simp
          from V4 [OF new(2) new'(2) _ _ this new(3)] h(3,4) new(1) new'(1)
          show ?thesis by simp
        qed
      qed
    qed
    show ?thesis
    proof (intro conjI allI impI)
      fix a b e
      assume "used_slot s' (dn @ [el]) a b \<and> boundary_slot g support a b
          \<and> e < length (edge_dofs s')"
      then show "edge_dofs s' ! e \<noteq> int (local2global_map s' ! a ! b)"
        using Q1 by blast
    next
      fix a b a' b'
      assume h: "used_slot s' (dn @ [el]) a b \<and> used_slot s' (dn @ [el]) a' b'
          \<and> boundary_slot g support a b \<and> boundary_slot g support a' b'
          \<and> local2global_map s' ! a ! b = local2global_map s' ! a' ! b'"
      from h show "a = a'" using Q2 [of a b a' b'] by blast
      from h show "b = b'" using Q2 [of a b a' b'] by blast
    qed
  qed
  show ?thesis
    unfolding ids_inv_def
  proof (rule conjI)
    show "\<forall>d. 0 \<le> d \<and> d < count s' \<longrightarrow>
        (\<exists>a b. used_slot s' (dn @ [el]) a b \<and> local2global_map s' ! a ! b = to_uint32 d)"
      using cov' by blast
  next
    show "count s' \<le> 2 ^ 32 \<longrightarrow>
          ((\<forall>a b e. used_slot s' (dn @ [el]) a b \<and> boundary_slot g support a b
                \<and> e < length (edge_dofs s')
              \<longrightarrow> edge_dofs s' ! e \<noteq> int (local2global_map s' ! a ! b))
        \<and> (\<forall>a b a' b'. used_slot s' (dn @ [el]) a b \<and> used_slot s' (dn @ [el]) a' b'
                \<and> boundary_slot g support a b \<and> boundary_slot g support a' b'
                \<and> local2global_map s' ! a ! b = local2global_map s' ! a' ! b'
              \<longrightarrow> a = a' \<and> b = b'))"
      using rest' by (rule impI)
  qed
qed

lemma ids_inv_initial: "ids_inv g support [] (initial_state g)"
  by (simp add: ids_inv_def used_slot_def initial_state_def)

text \<open>All invariants hold together when the loop over the elements ends.\<close>

lemma assign_dofs_ids_inv:
  assumes "assign_dofs g support ibd = Inr st"
  shows "ids_inv g support (flatnonzero (\<lambda>b. b) support) st"
proof -
  have "outer_inv g support ibd (flatnonzero (\<lambda>b. b) support) st
        \<and> ids_inv g support (flatnonzero (\<lambda>b. b) support) st"
    using assms
  proof (rule assign_dofs_invariant
      [where I = "\<lambda>dn s. outer_inv g support ibd dn s \<and> ids_inv g support dn s"
         and J = "\<lambda>dn el ks sd. inner_inv g support ibd dn el ks sd
                    \<and> ids_inner g support dn el ks sd"])
    show "outer_inv g support ibd [] (initial_state g) \<and> ids_inv g support [] (initial_state g)"
      using outer_inv_initial ids_inv_initial by (rule conjI)
  next
    fix dn el s
    assume a: "outer_inv g support ibd dn s \<and> ids_inv g support dn s" and el: "el \<notin> set dn"
    from a have a1: "outer_inv g support ibd dn s" and a2: "ids_inv g support dn s" by simp_all
    show "inner_inv g support ibd dn el [] (s, [- 1, - 1, - 1])
        \<and> ids_inner g support dn el [] (s, [- 1, - 1, - 1])"
      using inner_inv_enter [OF a1 el] ids_inner_enter [OF a2] by (rule conjI)
  next
    fix dn el ks l s dm s' dm'
    assume a: "inner_inv g support ibd dn el ks (s, dm) \<and> ids_inner g support dn el ks (s, dm)"
      and l: "l \<notin> set ks" "l < 3"
      and run: "slot_step g support ibd el (s, dm) l = Inr (s', dm')"
    from a have a1: "inner_inv g support ibd dn el ks (s, dm)"
      and a2: "ids_inner g support dn el ks (s, dm)" by simp_all
    show "inner_inv g support ibd dn el (ks @ [l]) (s', dm')
        \<and> ids_inner g support dn el (ks @ [l]) (s', dm')"
      using inner_inv_slot [OF a1 l run] ids_inner_slot [OF a1 a2 l run] by (rule conjI)
  next
    fix dn el s dm s'
    assume a: "inner_inv g support ibd dn el [0, 1, 2] (s, dm)
        \<and> ids_inner g support dn el [0, 1, 2] (s, dm)"
      and run: "finish_element el (s, dm) = Inr s'"
    from a have a1: "inner_inv g support ibd dn el [0, 1, 2] (s, dm)"
      and a2: "ids_inner g support dn el [0, 1, 2] (s, dm)" by simp_all
    show "outer_inv g support ibd (dn @ [el]) s' \<and> ids_inv g support (dn @ [el]) s'"
      using outer_inv_finish [OF a1 run] ids_inv_finish [OF a1 a2 run] by (rule conjI)
  qed
  then show ?thesis ..
qed

section \<open>The identifiers of the returned space\<close>

lemma used_slot_kind:
  assumes inv: "outer_inv g support ibd dn st" and u: "used_slot st dn a b"
  shows "boundary_slot g support a b
     \<or> (\<not> boundary_slot g support a b \<and> slot_edge g a b < length (edge_dofs st)
        \<and> 0 \<le> edge_dofs st ! slot_edge g a b \<and> edge_dofs st ! slot_edge g a b < count st
        \<and> local2global_map st ! a ! b = to_uint32 (edge_dofs st ! slot_edge g a b))"
proof -
  from u have a: "a \<in> set dn" and b: "b < 3" and m: "local_multipliers st ! a ! b \<noteq> 0"
    by (simp_all add: used_slot_def)
  from inv a have "row_ok g support ibd st a" by (simp add: outer_inv_def)
  with b have "slot_done g support ibd st a b" by (simp add: row_ok_def)
  with m obtain d where
    r: "slot_rec g support ibd a b (local_multipliers st ! a ! b) d (edge_dofs st)"
    and l: "local2global_map st ! a ! b = to_uint32 d" and d: "d < count st"
    unfolding slot_done_def by blast
  from r obtain other where o: "slot_other g support a b = Inr other"
    and c: "other \<noteq> - 1 \<Longrightarrow> slot_edge g a b < length (edge_dofs st)
          \<and> edge_dofs st ! slot_edge g a b = d \<and> 0 \<le> d"
    unfolding slot_rec_def by (auto split: if_splits)
  show ?thesis
  proof (cases "other = - 1")
    case True
    with o show ?thesis by (simp add: boundary_slot_def)
  next
    case False
    with o have "\<not> boundary_slot g support a b" by (simp add: boundary_slot_def)
    with c [OF False] l d show ?thesis by simp
  qed
qed

lemma ids_unique:
  assumes inv: "outer_inv g support ibd dn st" and ids: "ids_inv g support dn st"
    and eds: "edges_inv ibd st" and small: "count st \<le> 2 ^ 32"
    and u: "used_slot st dn a b" and u': "used_slot st dn a' b'"
    and eq: "local2global_map st ! a ! b = local2global_map st ! a' ! b'"
  shows "(a = a' \<and> b = b')
     \<or> (slot_edge g a b = slot_edge g a' b'
        \<and> \<not> boundary_slot g support a b \<and> \<not> boundary_slot g support a' b')"
proof -
  note c = ids [unfolded ids_inv_def, THEN conjunct2, THEN mp, OF small]
  have P1: "\<And>x y e. used_slot st dn x y \<Longrightarrow> boundary_slot g support x y
            \<Longrightarrow> e < length (edge_dofs st)
            \<Longrightarrow> edge_dofs st ! e \<noteq> int (local2global_map st ! x ! y)"
    using c [THEN conjunct1] by blast
  have P2: "\<And>x y x' y'. used_slot st dn x y \<Longrightarrow> used_slot st dn x' y'
            \<Longrightarrow> boundary_slot g support x y \<Longrightarrow> boundary_slot g support x' y'
            \<Longrightarrow> local2global_map st ! x ! y = local2global_map st ! x' ! y'
            \<Longrightarrow> x = x' \<and> y = y'"
    using c [THEN conjunct2] by blast
  have inj: "\<And>e e'. e < length (edge_dofs st) \<Longrightarrow> e' < length (edge_dofs st)
            \<Longrightarrow> edge_dofs st ! e = edge_dofs st ! e' \<Longrightarrow> edge_dofs st ! e \<noteq> - 1 \<Longrightarrow> e = e'"
    using eds unfolding edges_inv_def by blast
  have edge_id: "int (local2global_map st ! x ! y) = edge_dofs st ! slot_edge g x y"
    if "0 \<le> edge_dofs st ! slot_edge g x y" "edge_dofs st ! slot_edge g x y < count st"
      "local2global_map st ! x ! y = to_uint32 (edge_dofs st ! slot_edge g x y)" for x y
  proof -
    from that(1,2) small have "int (to_uint32 (edge_dofs st ! slot_edge g x y)) =
        edge_dofs st ! slot_edge g x y"
      by (intro to_uint32_small) simp_all
    with that(3) show ?thesis by simp
  qed
  from used_slot_kind [OF inv u] consider
    (bd) "boundary_slot g support a b"
    | (int) "\<not> boundary_slot g support a b" "slot_edge g a b < length (edge_dofs st)"
      "0 \<le> edge_dofs st ! slot_edge g a b" "edge_dofs st ! slot_edge g a b < count st"
      "local2global_map st ! a ! b = to_uint32 (edge_dofs st ! slot_edge g a b)"
    by blast
  then show ?thesis
  proof cases
    case bd
    from used_slot_kind [OF inv u'] consider
      (bd') "boundary_slot g support a' b'"
      | (int') "\<not> boundary_slot g support a' b'" "slot_edge g a' b' < length (edge_dofs st)"
        "0 \<le> edge_dofs st ! slot_edge g a' b'" "edge_dofs st ! slot_edge g a' b' < count st"
        "local2global_map st ! a' ! b' = to_uint32 (edge_dofs st ! slot_edge g a' b')"
      by blast
    then show ?thesis
    proof cases
      case bd'
      from P2 [OF u u' bd bd' eq] show ?thesis by simp
    next
      case int'
      from P1 [OF u bd int'(2)] edge_id [OF int'(3,4,5)] eq show ?thesis by simp
    qed
  next
    case int
    from used_slot_kind [OF inv u'] consider
      (bd') "boundary_slot g support a' b'"
      | (int') "\<not> boundary_slot g support a' b'" "slot_edge g a' b' < length (edge_dofs st)"
        "0 \<le> edge_dofs st ! slot_edge g a' b'" "edge_dofs st ! slot_edge g a' b' < count st"
        "local2global_map st ! a' ! b' = to_uint32 (edge_dofs st ! slot_edge g a' b')"
      by blast
    then show ?thesis
    proof cases
      case bd'
      from P1 [OF u' bd' int(2)] edge_id [OF int(3,4,5)] eq show ?thesis by simp
    next
      case int'
      from edge_id [OF int(3,4,5)] edge_id [OF int'(3,4,5)] eq
      have "edge_dofs st ! slot_edge g a b = edge_dofs st ! slot_edge g a' b'" by simp
      moreover from int(3) have "edge_dofs st ! slot_edge g a b \<noteq> - 1" by simp
      ultimately have "slot_edge g a b = slot_edge g a' b'"
        using inj [OF int(2) int'(2)] by simp
      with int(1) int'(1) show ?thesis by simp
    qed
  qed
qed

text \<open>The slots that carry a DOF in the returned space are those of the last state.\<close>

lemma dof_slot_used:
  assumes run: "assign_dofs g support ibd = Inr st"
    and sh: "shrink_support support (delete_from_support st) = Inr support'"
    and sp: "sp_support sp = support'" "multipliers sp = local_multipliers st"
  shows "dof_slot sp el l \<longleftrightarrow> used_slot st (flatnonzero (\<lambda>b. b) support) el l"
proof
  assume "dof_slot sp el l"
  then have el: "el < length support'" "support' ! el" and l: "l < 3"
    and m: "local_multipliers st ! el ! l \<noteq> 0"
    by (simp_all add: dof_slot_def sp)
  from el(1) have el': "el < length support" using shrink_support_Inr(1) [OF sh] by simp
  from final_support_mem(1) [OF run sh el' el(2)] el'
  have "el \<in> set (flatnonzero (\<lambda>b. b) support)"
    unfolding set_flatnonzero_support by simp
  with l m show "used_slot st (flatnonzero (\<lambda>b. b) support) el l"
    by (simp add: used_slot_def)
next
  assume "used_slot st (flatnonzero (\<lambda>b. b) support) el l"
  then have mem: "el \<in> set (flatnonzero (\<lambda>b. b) support)" and l: "l < 3"
    and m: "local_multipliers st ! el ! l \<noteq> 0"
    by (simp_all add: used_slot_def)
  from mem have el: "el < length support" "support ! el"
    unfolding set_flatnonzero_support by simp_all
  have "row_ok g support ibd st el" using run el by (rule assign_dofs_final(2))
  then have "row_fill st el" by (simp add: row_ok_def)
  with l m have "el \<notin> set (delete_from_support st)"
    unfolding row_fill_def by (auto split: if_splits)
  with shrink_support_Inr(2) [OF sh el(1)] el(2) have "support' ! el" by simp
  moreover have "el < length support'" using shrink_support_Inr(1) [OF sh] el(1) by simp
  ultimately show "dof_slot sp el l" using l m by (simp add: dof_slot_def sp)
qed

lemma dof_ids_exact:
  assumes init: "rwg0_init g support ibd = Inr sp"
  shows "(\<forall>d. 0 \<le> d \<and> d < global_dof_count sp \<longrightarrow>
            (\<exists>el l. dof_slot sp el l \<and> local2global sp ! el ! l = to_uint32 d))
     \<and> (global_dof_count sp \<le> 2 ^ 32 \<longrightarrow>
          (\<forall>d. 0 \<le> d \<and> d < global_dof_count sp \<longrightarrow>
              (\<exists>el l. dof_slot sp el l \<and> int (local2global sp ! el ! l) = d))
        \<and> (\<forall>el l el' l'. dof_slot sp el l \<and> dof_slot sp el' l'
                \<and> local2global sp ! el ! l = local2global sp ! el' ! l'
              \<longrightarrow> (el = el' \<and> l = l')
                  \<or> (slot_edge g el l = slot_edge g el' l'
                     \<and> \<not> boundary_slot g support el l \<and> \<not> boundary_slot g support el' l')))
     \<and> (\<forall>el l. el < length (sp_support sp) \<and> sp_support sp ! el \<and> l < 3
            \<longrightarrow> int (local2global sp ! el ! l) < global_dof_count sp)"
proof -
  let ?els = "flatnonzero (\<lambda>b. b) support"
  from init obtain st support' where
    run: "assign_dofs g support ibd = Inr st"
    and sh: "shrink_support support (delete_from_support st) = Inr support'"
    and sp: "sp = \<lparr>sp_grid = g, global_dof_count = count st,
            local2global = local2global_map st, multipliers = local_multipliers st,
            sp_support = support', number_of_shape_functions = 3\<rparr>"
    by (rule rwg0_init_Inr)
  have f: "sp_support sp = support'" "multipliers sp = local_multipliers st"
    "local2global sp = local2global_map st" "global_dof_count sp = count st"
    by (simp_all add: sp)
  note U = dof_slot_used [OF run sh f(1,2)]
  note inv = assign_dofs_outer_inv [OF run]
  note ids = assign_dofs_ids_inv [OF run]
  note eds = assign_dofs_edges_inv [OF run]
  have ok: "state_ok g st" using run by (rule assign_dofs_final(1))
  have cov: "\<exists>el l. dof_slot sp el l \<and> local2global_map st ! el ! l = to_uint32 d"
    if "0 \<le> d" "d < count st" for d
    using ids [unfolded ids_inv_def, THEN conjunct1] that unfolding U by blast
  have cov_small: "\<exists>el l. dof_slot sp el l \<and> int (local2global_map st ! el ! l) = d"
    if small: "count st \<le> 2 ^ 32" and d: "0 \<le> d" "d < count st" for d
  proof -
    from cov [OF d] obtain el l where s: "dof_slot sp el l"
      and l: "local2global_map st ! el ! l = to_uint32 d" by blast
    from d small have "int (to_uint32 d) = d" by (intro to_uint32_small) simp_all
    with l have "int (local2global_map st ! el ! l) = d" by simp
    with s show ?thesis by blast
  qed
  have uniq: "(el = el' \<and> l = l')
      \<or> (slot_edge g el l = slot_edge g el' l'
         \<and> \<not> boundary_slot g support el l \<and> \<not> boundary_slot g support el' l')"
    if "count st \<le> 2 ^ 32" "dof_slot sp el l" "dof_slot sp el' l'"
      "local2global_map st ! el ! l = local2global_map st ! el' ! l'" for el l el' l'
    using inv ids eds that(1) that(2) [unfolded U] that(3) [unfolded U] that(4)
    by (rule ids_unique)
  have bound: "int (local2global_map st ! el ! l) < count st"
    if "el < length support'" "support' ! el" "l < 3" for el l
  proof -
    from that(1) have el': "el < length support" using shrink_support_Inr(1) [OF sh] by simp
    from final_support_mem(2,3) [OF run sh el' that(2)] ok that(3)
    show ?thesis using kept_row_id_bound by blast
  qed
  show ?thesis
    unfolding f
  proof (intro conjI allI impI)
    fix d assume "0 \<le> d \<and> d < count st"
    then show "\<exists>el l. dof_slot sp el l \<and> local2global_map st ! el ! l = to_uint32 d"
      using cov by blast
  next
    fix d assume "count st \<le> 2 ^ 32" "0 \<le> d \<and> d < count st"
    then show "\<exists>el l. dof_slot sp el l \<and> int (local2global_map st ! el ! l) = d"
      using cov_small by blast
  next
    fix el l el' l'
    assume "count st \<le> 2 ^ 32" "dof_slot sp el l \<and> dof_slot sp el' l'
        \<and> local2global_map st ! el ! l = local2global_map st ! el' ! l'"
    then show "(el = el' \<and> l = l')
      \<or> (slot_edge g el l = slot_edge g el' l'
         \<and> \<not> boundary_slot g support el l \<and> \<not> boundary_slot g support el' l')"
      using uniq [of el l el' l'] by blast
  next
    fix el l :: nat assume "el < length support' \<and> support' ! el \<and> l < 3"
    then show "int (local2global_map st ! el ! l) < count st"
      using bound by blast
  qed
qed

text \<open>
  Claim C10. In the space that the constructor returns, the identifiers in use are exactly
  those of the range from 0 to the global DOF count minus one, each handed out once.
  Every identifier \<open>d\<close> of that range is held, as \<open>uint32\<close>, by a slot that carries a DOF
  (a slot with a nonzero multiplier of an element of the final support). While the count
  is at most 2^32, so that no identifier wraps in the \<open>uint32\<close> map, the slot holds \<open>d\<close>
  itself, and two slots that carry a DOF hold the same identifier only if they are one
  slot, or slots of one edge that the loop treats as shared by two elements of the
  support: a boundary slot has an identifier of its own, and an edge has one identifier.
  Consequently every entry of the local-to-global map of an element of the final support
  is below the global DOF count.
\<close>

theorem dof_ids_contiguous:
  assumes "rwg0_init g support ibd = Inr sp"
  shows "(\<forall>d. 0 \<le> d \<and> d < global_dof_count sp \<longrightarrow>
            (\<exists>el l. dof_slot sp el l \<and> local2global sp ! el ! l = to_uint32 d))
     \<and> (global_dof_count sp \<le> 2 ^ 32 \<longrightarrow>
          (\<forall>d. 0 \<le> d \<and> d < global_dof_count sp \<longrightarrow>
              (\<exists>el l. dof_slot sp el l \<and> int (local2global sp ! el ! l) = d))
        \<and> (\<forall>el l el' l'. dof_slot sp el l \<and> dof_slot sp el' l'
                \<and> local2global sp ! el ! l = local2global sp ! el' ! l'
              \<longrightarrow> (el = el' \<and> l = l')
                  \<or> (slot_edge g el l = slot_edge g el' l'
                     \<and> \<not> boundary_slot g support el l \<and> \<not> boundary_slot g support el' l')))
     \<and> (\<forall>el l. el < length (sp_support sp) \<and> sp_support sp ! el \<and> l < 3
            \<longrightarrow> int (local2global sp ! el ! l) < global_dof_count sp)"
  using assms by (rule dof_ids_exact)

lemma rwg0_init_boundary_dof_space:
  "rwg0_init two_triangles [True, True] True = Inr boundary_dof_space"
  unfolding boundary_dof_space_def by code_simp

text \<open>
  The two triangles with boundary DOFs: five identifiers; identifier 4 is held by a slot;
  slot 2 of the first triangle and slot 0 of the second hold the same identifier, and
  they are the slots of the common edge.
\<close>

theorem dof_ids_contiguous_witness:
  "rwg0_init two_triangles [True, True] True = Inr boundary_dof_space
   \<and> global_dof_count boundary_dof_space = 5
   \<and> (\<exists>el l. dof_slot boundary_dof_space el l
          \<and> int (local2global boundary_dof_space ! el ! l) = 4)
   \<and> dof_slot boundary_dof_space 0 2 \<and> dof_slot boundary_dof_space 1 0
   \<and> local2global boundary_dof_space ! 0 ! 2 = local2global boundary_dof_space ! 1 ! 0
   \<and> slot_edge two_triangles 0 2 = slot_edge two_triangles 1 0
   \<and> int (local2global boundary_dof_space ! 1 ! 2) < global_dof_count boundary_dof_space"
proof -
  note t = dof_ids_contiguous [OF rwg0_init_boundary_dof_space]
  have c: "global_dof_count boundary_dof_space = 5"
    by (simp add: boundary_dof_space_def)
  have small: "global_dof_count boundary_dof_space \<le> 2 ^ 32"
    unfolding c by simp
  have s: "dof_slot boundary_dof_space 0 2" "dof_slot boundary_dof_space 1 0"
    by (simp_all add: dof_slot_def boundary_dof_space_def)
  have e: "local2global boundary_dof_space ! 0 ! 2 = local2global boundary_dof_space ! 1 ! 0"
    by (simp add: boundary_dof_space_def)
  have el: "(1::nat) < length (sp_support boundary_dof_space)"
    "sp_support boundary_dof_space ! 1" "(2::nat) < 3"
    by (simp_all add: boundary_dof_space_def)
  have d: "(0::int) \<le> 4 \<and> 4 < global_dof_count boundary_dof_space"
    unfolding c by simp
  note t2 = t [THEN conjunct2, THEN conjunct1, THEN mp, OF small]
  from t2 [THEN conjunct1] d
  have cov: "\<exists>el l. dof_slot boundary_dof_space el l
          \<and> int (local2global boundary_dof_space ! el ! l) = 4"
    by blast
  from t2 [THEN conjunct2] s e
  have "((0::nat) = 1 \<and> (2::nat) = 0)
     \<or> (slot_edge two_triangles 0 2 = slot_edge two_triangles 1 0
        \<and> \<not> boundary_slot two_triangles [True, True] 0 2
        \<and> \<not> boundary_slot two_triangles [True, True] 1 0)"
    by blast
  then have edge: "slot_edge two_triangles 0 2 = slot_edge two_triangles 1 0" by simp
  from t [THEN conjunct2, THEN conjunct2] el
  have bound: "int (local2global boundary_dof_space ! 1 ! 2)
      < global_dof_count boundary_dof_space"
    by blast
  show ?thesis
    using rwg0_init_boundary_dof_space c cov s e edge bound by blast
qed

end
